theory Spec2Isabelle
  imports Main "HOL-Library.Word"
begin

unbundle bit_operations_syntax

section \<open>Memory, constants and the platform\<close>

text \<open>
  The functions of \<^verbatim>\<open>descriptor.c\<close> walk a byte buffer with a raw pointer and an
  \<^verbatim>\<open>int size\<close> that is decremented independently of the pointer. Memory is therefore a
  total map from addresses to bytes, a buffer is an address (a \<open>nat\<close>: the pointer only
  ever moves forward), and \<open>size\<close>, \<open>parsed\<close> and every return value are \<open>int\<close>
  (\<open>size\<close> can become negative). No C \<^verbatim>\<open>int\<close> of this file can overflow: every quantity is
  bounded by \<open>wTotalLength\<close> (at most 65535) plus a few descriptor lengths (at most 255 each).
\<close>

type_synonym u8 = "8 word"
type_synonym u16 = "16 word"
type_synonym u32 = "32 word"
type_synonym mem = "nat \<Rightarrow> u8"

text \<open>A byte list laid out from address 0; reads past its end give 0 (used for concrete inputs only).\<close>

definition mem_of :: "u8 list \<Rightarrow> mem" where
  "mem_of bs = (\<lambda>i. if i < length bs then bs ! i else 0)"

text \<open>The bytes of memory in the address range \<open>[a, b)\<close>: what \<^verbatim>\<open>memcpy(extra, begin, len)\<close> copies.\<close>

definition bytes :: "mem \<Rightarrow> nat \<Rightarrow> nat \<Rightarrow> u8 list" where
  "bytes m a b = map m [a..<b]"

text \<open>
  What \<^verbatim>\<open>libusbi.h\<close>, \<^verbatim>\<open>libusb.h\<close> and the platform fix, none of which is in this file: the two
  architectural maxima, the two error codes the parser returns by name, and the byte order of
  the host (which decides the value of a 16-bit field filled by \<^verbatim>\<open>memcpy\<close>). They are taken as
  a parameter of every function that uses one of them.
\<close>

record libusbi =
  USB_MAXINTERFACES :: nat
  USB_MAXENDPOINTS :: nat
  LIBUSB_ERROR_IO :: int
  LIBUSB_ERROR_NO_MEM :: int
  host_big_endian :: bool

text \<open>The error codes are negative: every caller tests \<^verbatim>\<open>r < 0\<close>.\<close>

definition errors_negative :: "libusbi \<Rightarrow> bool" where
  "errors_negative K = (LIBUSB_ERROR_IO K < 0 \<and> LIBUSB_ERROR_NO_MEM K < 0)"

text \<open>The values of libusb 1.0, on a little-endian host; used for concrete inputs.\<close>

definition libusb_1_0 :: libusbi where
  "libusb_1_0 = \<lparr>USB_MAXINTERFACES = 32, USB_MAXENDPOINTS = 32,
     LIBUSB_ERROR_IO = - 1, LIBUSB_ERROR_NO_MEM = - 11, host_big_endian = False\<rparr>"

text \<open>Modelled from the spec: the descriptor type codes of \<^verbatim>\<open>libusb.h\<close>, which is not in src/
  (spec section 6: device=1, config=2, string=3, interface=4, endpoint=5).\<close>

definition LIBUSB_DT_DEVICE :: u8 where "LIBUSB_DT_DEVICE = 1"
definition LIBUSB_DT_CONFIG :: u8 where "LIBUSB_DT_CONFIG = 2"
definition LIBUSB_DT_STRING :: u8 where "LIBUSB_DT_STRING = 3"
definition LIBUSB_DT_INTERFACE :: u8 where "LIBUSB_DT_INTERFACE = 4"
definition LIBUSB_DT_ENDPOINT :: u8 where "LIBUSB_DT_ENDPOINT = 5"

text \<open>Modelled from the spec: \<^verbatim>\<open>LIBUSB_DT_INTERFACE_SIZE\<close> of \<^verbatim>\<open>libusb.h\<close> (spec 4.3: the fixed
  interface-header size, 9).\<close>

definition LIBUSB_DT_INTERFACE_SIZE :: int where "LIBUSB_DT_INTERFACE_SIZE = 9"

definition DESC_HEADER_LENGTH :: int where "DESC_HEADER_LENGTH = 2"
definition DEVICE_DESC_LENGTH :: nat where "DEVICE_DESC_LENGTH = 18"
definition CONFIG_DESC_LENGTH :: int where "CONFIG_DESC_LENGTH = 9"
definition INTERFACE_DESC_LENGTH :: int where "INTERFACE_DESC_LENGTH = 9"
definition ENDPOINT_DESC_LENGTH :: int where "ENDPOINT_DESC_LENGTH = 7"
definition ENDPOINT_AUDIO_DESC_LENGTH :: int where "ENDPOINT_AUDIO_DESC_LENGTH = 9"

text \<open>
  \<^verbatim>\<open>malloc\<close> and \<^verbatim>\<open>realloc\<close> may fail. An allocation oracle \<open>al\<close> says whether the \<open>k\<close>-th
  request of a run succeeds; every function that allocates takes \<open>al\<close> and the number \<open>k\<close> of
  requests made so far and returns the new count. \<^verbatim>\<open>free\<close> changes no field that the parser
  or a claim reads (the pointers are left dangling), so the teardown functions are not
  modelled: on a failure the model returns the structure as it stands at the \<^verbatim>\<open>err:\<close> label.
\<close>

type_synonym alloc = "nat \<Rightarrow> bool"

section \<open>The field codec\<close>

text \<open>
  \<^verbatim>\<open>usbi_parse_descriptor(source, descriptor, dest)\<close>. The stores into \<open>dest\<close> are
  returned as a list, in the order they happen, each with its offset from \<open>dest\<close> and the
  typed value stored. \<open>dest\<close> is always a struct or \<^verbatim>\<open>malloc\<close>ed memory, so it is 4-aligned
  and the alignment tests on the pointer are tests on the offset. A format character that is
  none of the five is ignored (the \<^verbatim>\<open>switch\<close> has no default).
\<close>

datatype cell = U8 u8 | U16 u16 | U32 u32

definition le16 :: "u8 \<Rightarrow> u8 \<Rightarrow> u16" where
  "le16 b0 b1 = push_bit 8 (ucast b1) OR ucast b0"

definition le32 :: "u8 \<Rightarrow> u8 \<Rightarrow> u8 \<Rightarrow> u8 \<Rightarrow> u32" where
  "le32 b0 b1 b2 b3 =
     push_bit 24 (ucast b3) OR push_bit 16 (ucast b2) OR push_bit 8 (ucast b1) OR ucast b0"

text \<open>The value a host reads from a 16-bit (32-bit) field whose bytes were copied verbatim.\<close>

definition native16 :: "bool \<Rightarrow> u8 \<Rightarrow> u8 \<Rightarrow> u16" where
  "native16 be b0 b1 = (if be then le16 b1 b0 else le16 b0 b1)"

definition native32 :: "bool \<Rightarrow> u8 \<Rightarrow> u8 \<Rightarrow> u8 \<Rightarrow> u8 \<Rightarrow> u32" where
  "native32 be b0 b1 b2 b3 = (if be then le32 b3 b2 b1 b0 else le32 b0 b1 b2 b3)"

fun usbi_parse_descriptor_loop ::
  "bool \<Rightarrow> mem \<Rightarrow> string \<Rightarrow> nat \<Rightarrow> nat \<Rightarrow> (nat \<times> cell) list \<times> nat" where
  "usbi_parse_descriptor_loop be m [] sp dp = ([], sp)"
| "usbi_parse_descriptor_loop be m (c # cp) sp dp =
     (if c = CHR ''b'' then
        (let (ws, e) = usbi_parse_descriptor_loop be m cp (sp + 1) (dp + 1)
         in ((dp, U8 (m sp)) # ws, e))
      else if c = CHR ''w'' then
        (let w = le16 (m sp) (m (sp + 1));
             dp1 = dp + (dp AND 1);
             (ws, e) = usbi_parse_descriptor_loop be m cp (sp + 2) (dp1 + 2)
         in ((dp1, U16 w) # ws, e))
      else if c = CHR ''d'' then
        (let d = le32 (m sp) (m (sp + 1)) (m (sp + 2)) (m (sp + 3));
             dp1 = dp + (dp AND 2);
             (ws, e) = usbi_parse_descriptor_loop be m cp (sp + 4) (dp1 + 4)
         in ((dp1, U32 d) # ws, e))
      else if c = CHR ''W'' then
        (let dp1 = dp + (dp AND 1);
             (ws, e) = usbi_parse_descriptor_loop be m cp (sp + 2) (dp1 + 2)
         in ((dp1, U16 (native16 be (m sp) (m (sp + 1)))) # ws, e))
      else if c = CHR ''D'' then
        (let dp1 = dp + (dp AND 2);
             (ws, e) = usbi_parse_descriptor_loop be m cp (sp + 4) (dp1 + 4)
         in ((dp1, U32 (native32 be (m sp) (m (sp + 1)) (m (sp + 2)) (m (sp + 3)))) # ws, e))
      else usbi_parse_descriptor_loop be m cp sp dp)"

definition usbi_parse_descriptor ::
  "libusbi \<Rightarrow> mem \<Rightarrow> nat \<Rightarrow> string \<Rightarrow> (nat \<times> cell) list \<times> int" where
  "usbi_parse_descriptor K m source descriptor =
     (let (ws, sp) = usbi_parse_descriptor_loop (host_big_endian K) m descriptor source 0
      in (ws, int sp - int source))"

section \<open>The descriptor structures\<close>

text \<open>
  Modelled from the spec: the struct declarations of \<^verbatim>\<open>libusb.h\<close> and \<^verbatim>\<open>libusbi.h\<close>, which are
  not in src/ (spec section 3 and the USB 2.0 layouts it cites). The \<open>put\<close> functions give the
  field that a store at an offset reaches.

  A pointer to a heap block is \<^verbatim>\<open>NULL\<close>, or it addresses a live block (\<open>Ptr\<close>, with what the
  block holds: a byte list for a blob, a list of structures for an array), or it dangles:
  \<open>Released n x\<close> addresses a block that has been passed to \<^verbatim>\<open>free\<close> \<open>n\<close> times. C gives no
  meaning to a read through a released pointer; the model lets it find what the block held
  (\<open>x\<close>), so that a teardown that walks a released array is a value, and a second release is
  counted.
\<close>

datatype 'a ptr = Null | Ptr 'a | Released nat 'a

text \<open>\<^verbatim>\<open>free(p)\<close>; \<^verbatim>\<open>free(NULL)\<close> does nothing.\<close>

definition free :: "'a ptr \<Rightarrow> 'a ptr" where
  "free p = (case p of Null \<Rightarrow> Null | Ptr x \<Rightarrow> Released 1 x | Released n x \<Rightarrow> Released (Suc n) x)"

text \<open>The elements of the array that a pointer addresses (none behind \<^verbatim>\<open>NULL\<close>).\<close>

definition held :: "'a list ptr \<Rightarrow> 'a list" where
  "held p = (case p of Null \<Rightarrow> [] | Ptr xs \<Rightarrow> xs | Released n xs \<Rightarrow> xs)"

record usb_descriptor_header =
  bLength :: u8
  bDescriptorType :: u8

record libusb_endpoint_descriptor =
  bLength :: u8
  bDescriptorType :: u8
  bEndpointAddress :: u8
  bmAttributes :: u8
  wMaxPacketSize :: u16
  bInterval :: u8
  bRefresh :: u8
  bSynchAddress :: u8
  extra :: "u8 list ptr"
  extra_length :: int

record libusb_interface_descriptor =
  bLength :: u8
  bDescriptorType :: u8
  bInterfaceNumber :: u8
  bAlternateSetting :: u8
  bNumEndpoints :: u8
  bInterfaceClass :: u8
  bInterfaceSubClass :: u8
  bInterfaceProtocol :: u8
  iInterface :: u8
  endpoint :: "libusb_endpoint_descriptor list ptr"
  extra :: "u8 list ptr"
  extra_length :: int

record libusb_interface =
  altsetting :: "libusb_interface_descriptor list ptr"
  num_altsetting :: int

record libusb_config_descriptor =
  bLength :: u8
  bDescriptorType :: u8
  wTotalLength :: u16
  bNumInterfaces :: u8
  bConfigurationValue :: u8
  iConfiguration :: u8
  bmAttributes :: u8
  MaxPower :: u8
  interface :: "libusb_interface list ptr"
  extra :: "u8 list ptr"
  extra_length :: int

record libusb_device_descriptor =
  bLength :: u8
  bDescriptorType :: u8
  bcdUSB :: u16
  bDeviceClass :: u8
  bDeviceSubClass :: u8
  bDeviceProtocol :: u8
  bMaxPacketSize0 :: u8
  idVendor :: u16
  idProduct :: u16
  bcdDevice :: u16
  iManufacturer :: u8
  iProduct :: u8
  iSerialNumber :: u8
  bNumConfigurations :: u8

definition put_header :: "nat \<times> cell \<Rightarrow> usb_descriptor_header \<Rightarrow> usb_descriptor_header" where
  "put_header w h = (case w of
       (off, U8 b) \<Rightarrow>
         if off = 0 then h\<lparr>usb_descriptor_header.bLength := b\<rparr>
         else if off = 1 then h\<lparr>usb_descriptor_header.bDescriptorType := b\<rparr>
         else h
     | _ \<Rightarrow> h)"

definition put_endpoint ::
  "nat \<times> cell \<Rightarrow> libusb_endpoint_descriptor \<Rightarrow> libusb_endpoint_descriptor" where
  "put_endpoint w e = (case w of
       (off, U8 b) \<Rightarrow>
         if off = 0 then e\<lparr>libusb_endpoint_descriptor.bLength := b\<rparr>
         else if off = 1 then e\<lparr>libusb_endpoint_descriptor.bDescriptorType := b\<rparr>
         else if off = 2 then e\<lparr>bEndpointAddress := b\<rparr>
         else if off = 3 then e\<lparr>libusb_endpoint_descriptor.bmAttributes := b\<rparr>
         else if off = 6 then e\<lparr>bInterval := b\<rparr>
         else if off = 7 then e\<lparr>bRefresh := b\<rparr>
         else if off = 8 then e\<lparr>bSynchAddress := b\<rparr>
         else e
     | (off, U16 v) \<Rightarrow> if off = 4 then e\<lparr>wMaxPacketSize := v\<rparr> else e
     | _ \<Rightarrow> e)"

definition put_interface ::
  "nat \<times> cell \<Rightarrow> libusb_interface_descriptor \<Rightarrow> libusb_interface_descriptor" where
  "put_interface w d = (case w of
       (off, U8 b) \<Rightarrow>
         if off = 0 then d\<lparr>libusb_interface_descriptor.bLength := b\<rparr>
         else if off = 1 then d\<lparr>libusb_interface_descriptor.bDescriptorType := b\<rparr>
         else if off = 2 then d\<lparr>bInterfaceNumber := b\<rparr>
         else if off = 3 then d\<lparr>bAlternateSetting := b\<rparr>
         else if off = 4 then d\<lparr>bNumEndpoints := b\<rparr>
         else if off = 5 then d\<lparr>bInterfaceClass := b\<rparr>
         else if off = 6 then d\<lparr>bInterfaceSubClass := b\<rparr>
         else if off = 7 then d\<lparr>bInterfaceProtocol := b\<rparr>
         else if off = 8 then d\<lparr>iInterface := b\<rparr>
         else d
     | _ \<Rightarrow> d)"

definition put_config ::
  "nat \<times> cell \<Rightarrow> libusb_config_descriptor \<Rightarrow> libusb_config_descriptor" where
  "put_config w c = (case w of
       (off, U8 b) \<Rightarrow>
         if off = 0 then c\<lparr>libusb_config_descriptor.bLength := b\<rparr>
         else if off = 1 then c\<lparr>libusb_config_descriptor.bDescriptorType := b\<rparr>
         else if off = 4 then c\<lparr>bNumInterfaces := b\<rparr>
         else if off = 5 then c\<lparr>bConfigurationValue := b\<rparr>
         else if off = 6 then c\<lparr>iConfiguration := b\<rparr>
         else if off = 7 then c\<lparr>libusb_config_descriptor.bmAttributes := b\<rparr>
         else if off = 8 then c\<lparr>MaxPower := b\<rparr>
         else c
     | (off, U16 v) \<Rightarrow> if off = 2 then c\<lparr>wTotalLength := v\<rparr> else c
     | _ \<Rightarrow> c)"

definition put_device ::
  "nat \<times> cell \<Rightarrow> libusb_device_descriptor \<Rightarrow> libusb_device_descriptor" where
  "put_device w d = (case w of
       (off, U8 b) \<Rightarrow>
         if off = 0 then d\<lparr>libusb_device_descriptor.bLength := b\<rparr>
         else if off = 1 then d\<lparr>libusb_device_descriptor.bDescriptorType := b\<rparr>
         else if off = 4 then d\<lparr>bDeviceClass := b\<rparr>
         else if off = 5 then d\<lparr>bDeviceSubClass := b\<rparr>
         else if off = 6 then d\<lparr>bDeviceProtocol := b\<rparr>
         else if off = 7 then d\<lparr>bMaxPacketSize0 := b\<rparr>
         else if off = 14 then d\<lparr>iManufacturer := b\<rparr>
         else if off = 15 then d\<lparr>iProduct := b\<rparr>
         else if off = 16 then d\<lparr>iSerialNumber := b\<rparr>
         else if off = 17 then d\<lparr>bNumConfigurations := b\<rparr>
         else d
     | (off, U16 v) \<Rightarrow>
         if off = 2 then d\<lparr>bcdUSB := v\<rparr>
         else if off = 8 then d\<lparr>idVendor := v\<rparr>
         else if off = 10 then d\<lparr>idProduct := v\<rparr>
         else if off = 12 then d\<lparr>bcdDevice := v\<rparr>
         else d
     | _ \<Rightarrow> d)"

text \<open>Zeroed structures: what \<^verbatim>\<open>memset(p, 0, n)\<close> leaves.\<close>

definition zero_header :: usb_descriptor_header where
  "zero_header = \<lparr>usb_descriptor_header.bLength = 0, usb_descriptor_header.bDescriptorType = 0\<rparr>"

definition zero_endpoint :: libusb_endpoint_descriptor where
  "zero_endpoint = \<lparr>libusb_endpoint_descriptor.bLength = 0,
     libusb_endpoint_descriptor.bDescriptorType = 0, bEndpointAddress = 0,
     libusb_endpoint_descriptor.bmAttributes = 0, wMaxPacketSize = 0, bInterval = 0,
     bRefresh = 0, bSynchAddress = 0, libusb_endpoint_descriptor.extra = Null,
     libusb_endpoint_descriptor.extra_length = 0\<rparr>"

definition zero_interface_descriptor :: libusb_interface_descriptor where
  "zero_interface_descriptor = \<lparr>libusb_interface_descriptor.bLength = 0,
     libusb_interface_descriptor.bDescriptorType = 0, bInterfaceNumber = 0,
     bAlternateSetting = 0, bNumEndpoints = 0, bInterfaceClass = 0, bInterfaceSubClass = 0,
     bInterfaceProtocol = 0, iInterface = 0, endpoint = Null,
     libusb_interface_descriptor.extra = Null, libusb_interface_descriptor.extra_length = 0\<rparr>"

definition zero_interface :: libusb_interface where
  "zero_interface = \<lparr>altsetting = Null, num_altsetting = 0\<rparr>"

text \<open>\<^verbatim>\<open>usbi_parse_descriptor(buffer, "bb", &header)\<close>: both fields of the local are overwritten.\<close>

definition read_header :: "libusbi \<Rightarrow> mem \<Rightarrow> nat \<Rightarrow> usb_descriptor_header" where
  "read_header K m buffer =
     fold put_header (fst (usbi_parse_descriptor K m buffer ''bb'')) zero_header"

text \<open>The test for another "proper" descriptor that ends each of the three scans.\<close>

definition proper_descriptor :: "u8 \<Rightarrow> bool" where
  "proper_descriptor t =
     (t = LIBUSB_DT_ENDPOINT \<or> t = LIBUSB_DT_INTERFACE \<or> t = LIBUSB_DT_CONFIG \<or>
      t = LIBUSB_DT_DEVICE)"

section \<open>Teardown\<close>

text \<open>
  Lines 75-79, 160-182 and 315-326. \<^verbatim>\<open>clear_endpoint\<close> releases the extra blob of an endpoint.
  \<^verbatim>\<open>clear_interface\<close> walks the first \<^verbatim>\<open>num_altsetting\<close> settings of the array, releases the
  extra blob of each, the extra blobs of its \<^verbatim>\<open>bNumEndpoints\<close> endpoints and its endpoint
  array, and then the array of settings. \<^verbatim>\<open>clear_configuration\<close> does the same for the first
  \<^verbatim>\<open>bNumInterfaces\<close> interfaces, releases their array and the extra blob of the configuration.
  None of them resets a pointer: each pointer that was not \<^verbatim>\<open>NULL\<close> dangles afterwards, and a
  second teardown of the same structure walks the released array and releases every block
  again.
\<close>

definition clear_endpoint :: "libusb_endpoint_descriptor \<Rightarrow> libusb_endpoint_descriptor" where
  "clear_endpoint ep =
     (if libusb_endpoint_descriptor.extra ep \<noteq> Null
        then ep\<lparr>libusb_endpoint_descriptor.extra := free (libusb_endpoint_descriptor.extra ep)\<rparr>
      else ep)"

text \<open>The body of the loop of lines 163-175, for the setting \<open>ifp\<close>.\<close>

definition clear_altsetting :: "libusb_interface_descriptor \<Rightarrow> libusb_interface_descriptor" where
  "clear_altsetting ifp =
     (let n = unat (bNumEndpoints ifp);
          ifp1 = (if libusb_interface_descriptor.extra ifp \<noteq> Null
                    then ifp\<lparr>libusb_interface_descriptor.extra :=
                               free (libusb_interface_descriptor.extra ifp)\<rparr>
                  else ifp)
      in if endpoint ifp1 \<noteq> Null
           then ifp1\<lparr>endpoint :=
                  free (map_ptr (\<lambda>eps. map clear_endpoint (take n eps) @ drop n eps)
                          (endpoint ifp1))\<rparr>
         else ifp1)"

definition clear_interface :: "libusb_interface \<Rightarrow> libusb_interface" where
  "clear_interface ifc =
     (let n = nat (num_altsetting ifc) in
      if altsetting ifc \<noteq> Null
        then ifc\<lparr>altsetting :=
               free (map_ptr (\<lambda>alts. map clear_altsetting (take n alts) @ drop n alts)
                       (altsetting ifc))\<rparr>
      else ifc)"

definition clear_configuration :: "libusb_config_descriptor \<Rightarrow> libusb_config_descriptor" where
  "clear_configuration config =
     (let n = unat (bNumInterfaces config);
          config1 = (if interface config \<noteq> Null
                       then config\<lparr>interface :=
                              free (map_ptr (\<lambda>ifs. map clear_interface (take n ifs) @ drop n ifs)
                                      (interface config))\<rparr>
                     else config)
      in if libusb_config_descriptor.extra config1 \<noteq> Null
           then config1\<lparr>libusb_config_descriptor.extra :=
                          free (libusb_config_descriptor.extra config1)\<rparr>
         else config1)"

section \<open>The endpoint decoder\<close>

text \<open>The scan of lines 117-136; \<open>None\<close> is its \<^verbatim>\<open>return -1\<close>.\<close>

function parse_endpoint_skip ::
  "libusbi \<Rightarrow> mem \<Rightarrow> nat \<Rightarrow> int \<Rightarrow> int \<Rightarrow> (nat \<times> int \<times> int) option" where
  "parse_endpoint_skip K m buffer sz parsed =
     (if sz \<ge> DESC_HEADER_LENGTH then
        (let header = read_header K m buffer in
         if uint (usb_descriptor_header.bLength header) < 2 then None
         else if proper_descriptor (usb_descriptor_header.bDescriptorType header)
           then Some (buffer, sz, parsed)
         else parse_endpoint_skip K m
                (buffer + unat (usb_descriptor_header.bLength header))
                (sz - uint (usb_descriptor_header.bLength header))
                (parsed + uint (usb_descriptor_header.bLength header)))
      else Some (buffer, sz, parsed))"
  by pat_completeness auto
termination
  by (relation "measure (\<lambda>(K, m, buffer, sz, parsed). nat sz)")
     (auto simp: DESC_HEADER_LENGTH_def)

declare parse_endpoint_skip.simps [simp del]

definition parse_endpoint ::
  "libusbi \<Rightarrow> alloc \<Rightarrow> nat \<Rightarrow> libusb_endpoint_descriptor \<Rightarrow> mem \<Rightarrow> nat \<Rightarrow> int \<Rightarrow>
     int \<times> libusb_endpoint_descriptor \<times> nat" where
  "parse_endpoint K al k ep m buffer sz =
     (let header = read_header K m buffer in
      if uint (usb_descriptor_header.bLength header) > sz then (- 1, ep, k)
      else if usb_descriptor_header.bDescriptorType header \<noteq> LIBUSB_DT_ENDPOINT
        then (0, ep, k)
      else
        let ep1 =
              (if uint (usb_descriptor_header.bLength header) \<ge> ENDPOINT_AUDIO_DESC_LENGTH
                 then fold put_endpoint (fst (usbi_parse_descriptor K m buffer ''bbbbwbbb'')) ep
               else if uint (usb_descriptor_header.bLength header) \<ge> ENDPOINT_DESC_LENGTH
                 then fold put_endpoint (fst (usbi_parse_descriptor K m buffer ''bbbbwb'')) ep
               else ep);
            start = buffer + unat (usb_descriptor_header.bLength header)
        in case parse_endpoint_skip K m start
                  (sz - uint (usb_descriptor_header.bLength header))
                  (uint (usb_descriptor_header.bLength header)) of
             None \<Rightarrow> (- 1, ep1, k)
           | Some (buffer1, sz1, parsed) \<Rightarrow>
               let len = int buffer1 - int start in
               if len = 0 then
                 (parsed, ep1\<lparr>libusb_endpoint_descriptor.extra := Null,
                                    libusb_endpoint_descriptor.extra_length := 0\<rparr>, k)
               else if \<not> al k then
                 (LIBUSB_ERROR_NO_MEM K,
                  ep1\<lparr>libusb_endpoint_descriptor.extra := Null,
                            libusb_endpoint_descriptor.extra_length := 0\<rparr>, Suc k)
               else
                 (parsed, ep1\<lparr>libusb_endpoint_descriptor.extra := Ptr (bytes m start buffer1),
                                    libusb_endpoint_descriptor.extra_length := len\<rparr>, Suc k))"

section \<open>The interface decoder\<close>

text \<open>The scan of lines 225-243; \<open>None\<close> is its \<^verbatim>\<open>goto err\<close> with \<^verbatim>\<open>LIBUSB_ERROR_IO\<close>.\<close>

function parse_interface_skip ::
  "libusbi \<Rightarrow> mem \<Rightarrow> nat \<Rightarrow> int \<Rightarrow> int \<Rightarrow> (nat \<times> int \<times> int) option" where
  "parse_interface_skip K m buffer sz parsed =
     (if sz \<ge> DESC_HEADER_LENGTH then
        (let header = read_header K m buffer in
         if uint (usb_descriptor_header.bLength header) < 2 then None
         else if proper_descriptor (usb_descriptor_header.bDescriptorType header)
           then Some (buffer, sz, parsed)
         else parse_interface_skip K m
                (buffer + unat (usb_descriptor_header.bLength header))
                (sz - uint (usb_descriptor_header.bLength header))
                (parsed + uint (usb_descriptor_header.bLength header)))
      else Some (buffer, sz, parsed))"
  by pat_completeness auto
termination
  by (relation "measure (\<lambda>(K, m, buffer, sz, parsed). nat sz)")
     (auto simp: DESC_HEADER_LENGTH_def)

declare parse_interface_skip.simps [simp del]

text \<open>
  The endpoint loop of lines 282-298, from index \<open>i\<close> up to \<open>n = bNumEndpoints\<close>, on the
  array \<open>eps\<close> of \<open>n\<close> zeroed slots. \<open>Inl r\<close> is a \<^verbatim>\<open>goto err\<close> with the code \<open>r\<close>; \<open>Inr\<close> is
  the cursor after the loop.
\<close>

function parse_interface_endpoints ::
  "libusbi \<Rightarrow> alloc \<Rightarrow> mem \<Rightarrow> nat \<Rightarrow> nat \<Rightarrow> libusb_endpoint_descriptor list \<Rightarrow>
     nat \<Rightarrow> int \<Rightarrow> int \<Rightarrow> nat \<Rightarrow>
     (int + nat \<times> int \<times> int) \<times> libusb_endpoint_descriptor list \<times> nat" where
  "parse_interface_endpoints K al m n i eps buffer sz parsed k =
     (if i < n then
        (let header = read_header K m buffer in
         if uint (usb_descriptor_header.bLength header) > sz
           then (Inl (LIBUSB_ERROR_IO K), eps, k)
         else
           (case parse_endpoint K al k (eps ! i) m buffer sz of
              (r, e, k1) \<Rightarrow>
                if r < 0 then (Inl r, eps[i := e], k1)
                else parse_interface_endpoints K al m n (i + 1) (eps[i := e])
                       (buffer + nat r) (sz - r) (parsed + r) k1))
      else (Inr (buffer, sz, parsed), eps, k))"
  by pat_completeness auto
termination
  by (relation "measure (\<lambda>(K, al, m, n, i, eps, buffer, sz, parsed, k). n - i)") auto

declare parse_interface_endpoints.simps [simp del]

text \<open>
  The slot \<open>ifp\<close> that \<^verbatim>\<open>realloc\<close> appended lives in the array: after the \<open>num\<close> settings
  already there. \<open>with_altsetting ifc num ifp\<close> is the interface with the array that
  \<^verbatim>\<open>realloc\<close> returned, that slot holding \<open>ifp\<close>, and \<^verbatim>\<open>num_altsetting\<close> incremented.
\<close>

definition with_altsetting ::
  "libusb_interface \<Rightarrow> nat \<Rightarrow> libusb_interface_descriptor \<Rightarrow> libusb_interface" where
  "with_altsetting ifc num ifp =
     ifc\<lparr>altsetting := Ptr (take num (held (altsetting ifc)) @ [ifp]),
         num_altsetting := int num + 1\<rparr>"

text \<open>
  One pass through the body of the \<^verbatim>\<open>while\<close> loop of \<^verbatim>\<open>parse_interface\<close>, lines 199-299, up
  to the test for another alternate setting, in two parts. \<open>Inl (r, ifc, k)\<close> leaves the
  function with the result \<open>r\<close>: the \<^verbatim>\<open>return parsed\<close> of line 263, or a \<^verbatim>\<open>goto err\<close>, where
  \<^verbatim>\<open>clear_interface\<close> runs on the interface (lines 310-312). \<open>Inr\<close> is the state that reaches
  line 302.

  \<open>parse_altsetting_endpoints\<close> is lines 258-299: the test for an unexpected descriptor, the
  endpoint-count limit and the endpoints. \<open>ifp\<close> is the current setting, \<open>num\<close> its index.
\<close>

definition parse_altsetting_endpoints ::
  "libusbi \<Rightarrow> alloc \<Rightarrow> mem \<Rightarrow> libusb_interface \<Rightarrow> nat \<Rightarrow> libusb_interface_descriptor \<Rightarrow>
     nat \<Rightarrow> int \<Rightarrow> int \<Rightarrow> nat \<Rightarrow>
     (int \<times> libusb_interface \<times> nat) + (libusb_interface \<times> nat \<times> int \<times> int \<times> nat)" where
  "parse_altsetting_endpoints K al m ifc num ifp buffer sz parsed k =
     (let header = read_header K m buffer in
      if sz \<ge> DESC_HEADER_LENGTH \<and>
         (usb_descriptor_header.bDescriptorType header = LIBUSB_DT_CONFIG \<or>
          usb_descriptor_header.bDescriptorType header = LIBUSB_DT_DEVICE)
        then Inl (parsed, with_altsetting ifc num ifp, k)
      else if unat (bNumEndpoints ifp) > USB_MAXENDPOINTS K
        then Inl (LIBUSB_ERROR_IO K, clear_interface (with_altsetting ifc num ifp), k)
      else if unat (bNumEndpoints ifp) > 0 then
        (if \<not> al k
           then Inl (LIBUSB_ERROR_NO_MEM K,
                     clear_interface (with_altsetting ifc num (ifp\<lparr>endpoint := Null\<rparr>)), Suc k)
         else
           (case parse_interface_endpoints K al m (unat (bNumEndpoints ifp)) 0
                   (replicate (unat (bNumEndpoints ifp)) zero_endpoint)
                   buffer sz parsed (Suc k) of
              (Inl r, eps, k2) \<Rightarrow>
                Inl (r, clear_interface (with_altsetting ifc num (ifp\<lparr>endpoint := Ptr eps\<rparr>)),
                     k2)
            | (Inr (buffer2, sz2, parsed2), eps, k2) \<Rightarrow>
                Inr (with_altsetting ifc num (ifp\<lparr>endpoint := Ptr eps\<rparr>),
                     buffer2, sz2, parsed2, k2)))
      else Inr (with_altsetting ifc num ifp, buffer, sz, parsed, k))"

text \<open>
  \<open>parse_altsetting_header\<close> is lines 199-256: the new slot, its header, the scan and the copy
  of the extra bytes. \<open>Inl\<close> is a \<^verbatim>\<open>goto err\<close> as above; \<open>Inr\<close> is the setting \<open>ifp\<close> read so far
  and the cursor at line 258.
\<close>

definition parse_altsetting_header ::
  "libusbi \<Rightarrow> alloc \<Rightarrow> mem \<Rightarrow> libusb_interface \<Rightarrow> nat \<Rightarrow> int \<Rightarrow> int \<Rightarrow> nat \<Rightarrow>
     (int \<times> libusb_interface \<times> nat) +
     (libusb_interface_descriptor \<times> nat \<times> int \<times> int \<times> nat)" where
  "parse_altsetting_header K al m ifc buffer sz parsed k =
     (let num = nat (num_altsetting ifc) in
      if \<not> al k then Inl (LIBUSB_ERROR_NO_MEM K, clear_interface ifc, Suc k)
      else
        let ifp0 = (fold put_interface (fst (usbi_parse_descriptor K m buffer ''bbbbbbbbb''))
                      zero_interface_descriptor)
                   \<lparr>libusb_interface_descriptor.extra := Null,
                    libusb_interface_descriptor.extra_length := 0,
                    endpoint := Null\<rparr>;
            start = buffer + unat (libusb_interface_descriptor.bLength ifp0)
        in case parse_interface_skip K m start
                  (sz - uint (libusb_interface_descriptor.bLength ifp0))
                  (parsed + uint (libusb_interface_descriptor.bLength ifp0)) of
             None \<Rightarrow>
               Inl (LIBUSB_ERROR_IO K, clear_interface (with_altsetting ifc num ifp0), Suc k)
           | Some (buffer1, sz1, parsed1) \<Rightarrow>
               let len = int buffer1 - int start in
               if len = 0
                 then Inr (ifp0, buffer1, sz1, parsed1, Suc k)
               else if \<not> al (Suc k)
                 then Inl (LIBUSB_ERROR_NO_MEM K,
                           clear_interface (with_altsetting ifc num ifp0), Suc (Suc k))
               else Inr (ifp0\<lparr>libusb_interface_descriptor.extra := Ptr (bytes m start buffer1),
                               libusb_interface_descriptor.extra_length := len\<rparr>,
                         buffer1, sz1, parsed1, Suc (Suc k)))"

text \<open>The whole pass: the two parts in sequence.\<close>

definition parse_altsetting ::
  "libusbi \<Rightarrow> alloc \<Rightarrow> mem \<Rightarrow> libusb_interface \<Rightarrow> nat \<Rightarrow> int \<Rightarrow> int \<Rightarrow> nat \<Rightarrow>
     (int \<times> libusb_interface \<times> nat) + (libusb_interface \<times> nat \<times> int \<times> int \<times> nat)" where
  "parse_altsetting K al m ifc buffer sz parsed k =
     (case parse_altsetting_header K al m ifc buffer sz parsed k of
        Inl res \<Rightarrow> Inl res
      | Inr (ifp, buffer1, sz1, parsed1, k1) \<Rightarrow>
          parse_altsetting_endpoints K al m ifc (nat (num_altsetting ifc)) ifp
            buffer1 sz1 parsed1 k1)"

subsection \<open>The cursor moves forward\<close>

lemma usbi_parse_descriptor_bb:
  "usbi_parse_descriptor K m buffer ''bb'' = ([(0, U8 (m buffer)), (1, U8 (m (buffer + 1)))], 2)"
  by (simp add: usbi_parse_descriptor_def)

lemma read_header_eq:
  "read_header K m buffer =
     \<lparr>usb_descriptor_header.bLength = m buffer,
      usb_descriptor_header.bDescriptorType = m (buffer + 1)\<rparr>"
  by (simp add: read_header_def usbi_parse_descriptor_bb put_header_def zero_header_def)

lemma usbi_parse_descriptor_interface:
  "usbi_parse_descriptor K m buffer ''bbbbbbbbb'' =
     ([(0, U8 (m buffer)), (1, U8 (m (buffer + 1))), (2, U8 (m (buffer + 2))),
       (3, U8 (m (buffer + 3))), (4, U8 (m (buffer + 4))), (5, U8 (m (buffer + 5))),
       (6, U8 (m (buffer + 6))), (7, U8 (m (buffer + 7))), (8, U8 (m (buffer + 8)))], 9)"
  by (simp add: usbi_parse_descriptor_def) (simp_all add: eval_nat_numeral)

text \<open>The slot after lines 212-215: the nine header bytes, no extra bytes, no endpoints.\<close>

definition interface_header_at :: "mem \<Rightarrow> nat \<Rightarrow> libusb_interface_descriptor" where
  "interface_header_at m buffer =
     \<lparr>libusb_interface_descriptor.bLength = m buffer,
      libusb_interface_descriptor.bDescriptorType = m (buffer + 1),
      bInterfaceNumber = m (buffer + 2), bAlternateSetting = m (buffer + 3),
      bNumEndpoints = m (buffer + 4), bInterfaceClass = m (buffer + 5),
      bInterfaceSubClass = m (buffer + 6), bInterfaceProtocol = m (buffer + 7),
      iInterface = m (buffer + 8), endpoint = Null,
      libusb_interface_descriptor.extra = Null,
      libusb_interface_descriptor.extra_length = 0\<rparr>"

lemma store_interface_eq:
  "(fold put_interface (fst (usbi_parse_descriptor K m buffer ''bbbbbbbbb'')) zero_interface_descriptor)
     \<lparr>libusb_interface_descriptor.extra := Null,
      libusb_interface_descriptor.extra_length := 0, endpoint := Null\<rparr> = interface_header_at m buffer"
  by (simp add: usbi_parse_descriptor_interface put_interface_def zero_interface_descriptor_def
      interface_header_at_def)


text \<open>
  The three scans of the source (lines 117-136, 225-243 and 366-386) are one loop: they differ
  in that only the scan of \<^verbatim>\<open>parse_configuration\<close> also rejects a length above \<open>size\<close>
  (\<open>chk\<close>), and in the error code. \<open>scan\<close> is that loop, for the proofs.
\<close>

function scan :: "bool \<Rightarrow> mem \<Rightarrow> nat \<Rightarrow> int \<Rightarrow> (nat \<times> int) option" where
  "scan chk m p s =
     (if 2 \<le> s then
        (if (chk \<and> uint (m p) > s) \<or> uint (m p) < 2 then None
         else if proper_descriptor (m (p + 1)) then Some (p, s)
         else scan chk m (p + unat (m p)) (s - uint (m p)))
      else Some (p, s))"
  by pat_completeness auto
termination
  by (relation "measure (\<lambda>(chk, m, p, s). nat s)") auto

declare scan.simps [simp del]

lemma parse_interface_skip_scan:
  "parse_interface_skip K m buffer sz parsed =
     map_option (\<lambda>(b, s). (b, s, parsed + (sz - s))) (scan False m buffer sz)"
proof (induction False m buffer sz arbitrary: parsed rule: scan.induct)
  case (1 m p s)
  show ?case
  proof (cases "2 \<le> s \<and> \<not> uint (m p) < 2 \<and> \<not> proper_descriptor (m (p + 1))")
    case True
    then show ?thesis
      using "1.hyps"[of "parsed + uint (m p)"]
      by (subst parse_interface_skip.simps, subst scan.simps)
         (simp add: read_header_eq DESC_HEADER_LENGTH_def)
  next
    case False
    then show ?thesis
      by (subst parse_interface_skip.simps, subst scan.simps)
         (auto simp: read_header_eq DESC_HEADER_LENGTH_def)
  qed
qed

lemma parse_endpoint_skip_scan:
  "parse_endpoint_skip K m buffer sz parsed =
     map_option (\<lambda>(b, s). (b, s, parsed + (sz - s))) (scan False m buffer sz)"
proof (induction False m buffer sz arbitrary: parsed rule: scan.induct)
  case (1 m p s)
  show ?case
  proof (cases "2 \<le> s \<and> \<not> uint (m p) < 2 \<and> \<not> proper_descriptor (m (p + 1))")
    case True
    then show ?thesis
      using "1.hyps"[of "parsed + uint (m p)"]
      by (subst parse_endpoint_skip.simps, subst scan.simps)
         (simp add: read_header_eq DESC_HEADER_LENGTH_def)
  next
    case False
    then show ?thesis
      by (subst parse_endpoint_skip.simps, subst scan.simps)
         (auto simp: read_header_eq DESC_HEADER_LENGTH_def)
  qed
qed

lemma scan_size:
  "scan chk m p s = Some (p', s') \<Longrightarrow>
     s' \<le> s \<and> p \<le> p' \<and> int p' - int p = s - s' \<and> (2 \<le> s \<longrightarrow> 2 \<le> uint (m p))"
proof (induction chk m p s rule: scan.induct)
  case (1 chk m p s)
  show ?case
  proof (cases "2 \<le> s \<and> \<not> ((chk \<and> uint (m p) > s) \<or> uint (m p) < 2) \<and> \<not> proper_descriptor (m (p + 1))")
    case False
    with "1.prems" show ?thesis
      by (subst (asm) scan.simps) (auto split: if_splits)
  next
    case True
    with "1.prems" have rec: "scan chk m (p + unat (m p)) (s - uint (m p)) = Some (p', s')"
      by (subst (asm) scan.simps) simp
    from "1.IH"[OF _ _ _ rec] True show ?thesis by auto
  qed
qed


lemma parse_interface_endpoints_size:
  "parse_interface_endpoints K al m n i eps buffer sz parsed k = (Inr (b', s', p'), eps', k') \<Longrightarrow>
     s' \<le> sz \<and> buffer \<le> b' \<and> int b' - int buffer = sz - s' \<and> p' - parsed = sz - s' \<and>
     length eps' = length eps"
proof (induction K al m n i eps buffer sz parsed k rule: parse_interface_endpoints.induct)
  case (1 K al m n i eps buffer sz parsed k)
  show ?case
  proof (cases "i < n")
    case False
    with "1.prems" show ?thesis
      by (subst (asm) parse_interface_endpoints.simps) simp
  next
    case True
    obtain r e k1 where pe: "parse_endpoint K al k (eps ! i) m buffer sz = (r, e, k1)"
      by (cases "parse_endpoint K al k (eps ! i) m buffer sz")
    from True "1.prems" pe have ok: "\<not> uint (usb_descriptor_header.bLength (read_header K m buffer)) > sz" "\<not> r < 0"
      and rec: "parse_interface_endpoints K al m n (i + 1) (eps[i := e]) (buffer + nat r) (sz - r)
          (parsed + r) k1 = (Inr (b', s', p'), eps', k')"
      by (subst (asm) parse_interface_endpoints.simps, simp add: Let_def split: if_splits)+
    from "1.IH"[OF True refl ok(1) pe[symmetric] refl ok(2) rec] ok(2) show ?thesis by auto
  qed
qed

lemma parse_altsetting_endpoints_size:
  assumes "parse_altsetting_endpoints K al m ifc num ifp buffer sz parsed k = Inr (ifc', b', s', p', k')"
  shows "s' \<le> sz \<and> buffer \<le> b' \<and> int b' - int buffer = sz - s' \<and> p' - parsed = sz - s'"
proof (cases "unat (bNumEndpoints ifp) > 0")
  case False
  with assms show ?thesis
    by (simp add: parse_altsetting_endpoints_def Let_def split: if_splits)
next
  case True
  let ?n = "unat (bNumEndpoints ifp)"
  obtain res eps k2 where pe: "parse_interface_endpoints K al m ?n 0 (replicate ?n zero_endpoint)
      buffer sz parsed (Suc k) = (res, eps, k2)"
    by (cases "parse_interface_endpoints K al m ?n 0 (replicate ?n zero_endpoint) buffer sz parsed (Suc k)")
  from assms True pe have "res = Inr (b', s', p')"
    by (cases res) (auto simp: parse_altsetting_endpoints_def Let_def split: if_splits)
  with pe parse_interface_endpoints_size show ?thesis by blast
qed

lemma parse_altsetting_header_unfold:
  "parse_altsetting_header K al m ifc buffer sz parsed k =
     (if \<not> al k then Inl (LIBUSB_ERROR_NO_MEM K, clear_interface ifc, Suc k)
      else case scan False m (buffer + unat (m buffer)) (sz - uint (m buffer)) of
         None \<Rightarrow>
           Inl (LIBUSB_ERROR_IO K,
                clear_interface (with_altsetting ifc (nat (num_altsetting ifc))
                                   (interface_header_at m buffer)), Suc k)
       | Some (b1, s1) \<Rightarrow>
           if b1 = buffer + unat (m buffer)
             then Inr (interface_header_at m buffer, b1, s1, parsed + (sz - s1), Suc k)
           else if \<not> al (Suc k)
             then Inl (LIBUSB_ERROR_NO_MEM K,
                       clear_interface (with_altsetting ifc (nat (num_altsetting ifc))
                                          (interface_header_at m buffer)), Suc (Suc k))
           else Inr ((interface_header_at m buffer)
                       \<lparr>libusb_interface_descriptor.extra :=
                          Ptr (bytes m (buffer + unat (m buffer)) b1),
                        libusb_interface_descriptor.extra_length :=
                          int b1 - int (buffer + unat (m buffer))\<rparr>,
                     b1, s1, parsed + (sz - s1), Suc (Suc k)))"
proof -
  have bl: "libusb_interface_descriptor.bLength (interface_header_at m buffer) = m buffer"
    by (simp add: interface_header_at_def)
  have e: "\<And>a s::nat. (int a - int s = 0) = (a = s)" by auto
  show ?thesis
    unfolding parse_altsetting_header_def store_interface_eq Let_def bl
      parse_interface_skip_scan e
    by (simp split: option.splits)
qed

lemma parse_altsetting_unfold:
  "parse_altsetting K al m ifc buffer sz parsed k =
     (if \<not> al k then Inl (LIBUSB_ERROR_NO_MEM K, clear_interface ifc, Suc k)
      else case scan False m (buffer + unat (m buffer)) (sz - uint (m buffer)) of
         None \<Rightarrow>
           Inl (LIBUSB_ERROR_IO K,
                clear_interface (with_altsetting ifc (nat (num_altsetting ifc))
                                   (interface_header_at m buffer)), Suc k)
       | Some (b1, s1) \<Rightarrow>
           if b1 = buffer + unat (m buffer)
             then parse_altsetting_endpoints K al m ifc (nat (num_altsetting ifc))
                    (interface_header_at m buffer) b1 s1 (parsed + (sz - s1)) (Suc k)
           else if \<not> al (Suc k)
             then Inl (LIBUSB_ERROR_NO_MEM K,
                       clear_interface (with_altsetting ifc (nat (num_altsetting ifc))
                                          (interface_header_at m buffer)), Suc (Suc k))
           else parse_altsetting_endpoints K al m ifc (nat (num_altsetting ifc))
                  ((interface_header_at m buffer)
                     \<lparr>libusb_interface_descriptor.extra := Ptr (bytes m (buffer + unat (m buffer)) b1),
                      libusb_interface_descriptor.extra_length := int b1 - int (buffer + unat (m buffer))\<rparr>)
                  b1 s1 (parsed + (sz - s1)) (Suc (Suc k)))"
  unfolding parse_altsetting_def parse_altsetting_header_unfold
  by (simp split: option.splits)


lemma parse_altsetting_Inr:
  assumes "parse_altsetting K al m ifc buffer sz parsed k = Inr st"
  obtains b1 s1 ifp' kk where
    "scan False m (buffer + unat (m buffer)) (sz - uint (m buffer)) = Some (b1, s1)"
    "parse_altsetting_endpoints K al m ifc (nat (num_altsetting ifc)) ifp' b1 s1
       (parsed + (sz - s1)) kk = Inr st"
proof -
  define start where "start = buffer + unat (m buffer)"
  note unf = parse_altsetting_unfold[of K al m ifc buffer sz parsed k, folded start_def]
  have alk: "al k" using assms by (simp add: unf split: if_splits)
  obtain b1 s1 where sc: "scan False m start (sz - uint (m buffer)) = Some (b1, s1)"
    using assms alk by (cases "scan False m start (sz - uint (m buffer))") (auto simp: unf)
  show ?thesis
  proof (cases "b1 = start")
    case True
    with assms alk sc have "parse_altsetting_endpoints K al m ifc (nat (num_altsetting ifc))
        (interface_header_at m buffer) b1 s1 (parsed + (sz - s1)) (Suc k) = Inr st"
      by (simp add: unf)
    with sc that show ?thesis unfolding start_def by blast
  next
    case False
    with assms alk sc have a2: "al (Suc k)" by (simp add: unf split: if_splits)
    with False assms alk sc have "parse_altsetting_endpoints K al m ifc (nat (num_altsetting ifc))
        ((interface_header_at m buffer)
           \<lparr>libusb_interface_descriptor.extra := Ptr (bytes m start b1),
            libusb_interface_descriptor.extra_length := int b1 - int start\<rparr>)
        b1 s1 (parsed + (sz - s1)) (Suc (Suc k)) = Inr st"
      by (simp add: unf)
    with sc that show ?thesis unfolding start_def by blast
  qed
qed

lemma parse_altsetting_size:
  assumes "parse_altsetting K al m ifc buffer sz parsed k = Inr (ifc', b', s', p', k')"
    and "2 \<le> sz"
  shows "s' < sz \<and> buffer < b' \<and> int b' - int buffer = sz - s' \<and> p' - parsed = sz - s'"
proof -
  from assms(1) obtain b1 s1 ifp' kk where
    sc: "scan False m (buffer + unat (m buffer)) (sz - uint (m buffer)) = Some (b1, s1)" and
    pe: "parse_altsetting_endpoints K al m ifc (nat (num_altsetting ifc)) ifp' b1 s1
       (parsed + (sz - s1)) kk = Inr (ifc', b', s', p', k')"
    by (rule parse_altsetting_Inr)
  note s1 = scan_size[OF sc]
  have u: "uint (m buffer) = int (unat (m buffer))" by (rule uint_nat)
  have pos: "0 < unat (m buffer)"
  proof (rule ccontr)
    assume "\<not> 0 < unat (m buffer)"
    then have z: "m buffer = 0" by (simp add: unat_eq_zero)
    with s1 assms(2) show False by simp
  qed
  from parse_altsetting_endpoints_size[OF pe] s1 pos u show ?thesis
    by arith
qed

subsection \<open>The loop over the alternate settings\<close>

text \<open>
  Lines 198-309. The test of lines 302-306 reads the next descriptor through a cast of
  \<open>buffer\<close> to the interface structure: \<^verbatim>\<open>bDescriptorType\<close> is the byte at offset 1,
  \<^verbatim>\<open>bAlternateSetting\<close> the byte at offset 3.
\<close>

function parse_interface_loop ::
  "libusbi \<Rightarrow> alloc \<Rightarrow> mem \<Rightarrow> libusb_interface \<Rightarrow> nat \<Rightarrow> int \<Rightarrow> int \<Rightarrow> nat \<Rightarrow>
     int \<times> libusb_interface \<times> nat" where
  "parse_interface_loop K al m ifc buffer sz parsed k =
     (if sz \<ge> INTERFACE_DESC_LENGTH then
        (case parse_altsetting K al m ifc buffer sz parsed k of
           Inl res \<Rightarrow> res
         | Inr (ifc1, buffer1, sz1, parsed1, k1) \<Rightarrow>
             if sz1 < LIBUSB_DT_INTERFACE_SIZE \<or> m (buffer1 + 1) \<noteq> LIBUSB_DT_INTERFACE \<or>
                m (buffer1 + 3) = 0
               then (parsed1, ifc1, k1)
             else parse_interface_loop K al m ifc1 buffer1 sz1 parsed1 k1)
      else (parsed, ifc, k))"
  by pat_completeness auto
termination
proof (relation "measure (\<lambda>(K, al, m, ifc, buffer, sz, parsed, k). nat sz)", goal_cases)
  case 1
  show ?case by simp
next
  case (2 K al m ifc buffer sz parsed k x2 ifc1 y buffer1 ya sz1 yb parsed1 k1)
  then have "parse_altsetting K al m ifc buffer sz parsed k = Inr (ifc1, buffer1, sz1, parsed1, k1)"
    and "2 \<le> sz"
    by (simp_all add: INTERFACE_DESC_LENGTH_def)
  from parse_altsetting_size[OF this] 2(1) show ?case
    by (simp add: INTERFACE_DESC_LENGTH_def)
qed

declare parse_interface_loop.simps [simp del]

definition parse_interface ::
  "libusbi \<Rightarrow> alloc \<Rightarrow> nat \<Rightarrow> libusb_interface \<Rightarrow> mem \<Rightarrow> nat \<Rightarrow> int \<Rightarrow>
     int \<times> libusb_interface \<times> nat" where
  "parse_interface K al k ifc m buffer sz =
     parse_interface_loop K al m (ifc\<lparr>num_altsetting := 0\<rparr>) buffer sz 0 k"

section \<open>The configuration decoder\<close>

text \<open>The scan of lines 366-386; \<open>None\<close> is its \<^verbatim>\<open>goto err\<close> with \<^verbatim>\<open>LIBUSB_ERROR_IO\<close>.\<close>

function parse_configuration_skip ::
  "libusbi \<Rightarrow> mem \<Rightarrow> nat \<Rightarrow> int \<Rightarrow> (nat \<times> int) option" where
  "parse_configuration_skip K m buffer sz =
     (if sz \<ge> DESC_HEADER_LENGTH then
        (let header = read_header K m buffer in
         if uint (usb_descriptor_header.bLength header) > sz \<or>
            uint (usb_descriptor_header.bLength header) < DESC_HEADER_LENGTH then None
         else if proper_descriptor (usb_descriptor_header.bDescriptorType header)
           then Some (buffer, sz)
         else parse_configuration_skip K m
                (buffer + unat (usb_descriptor_header.bLength header))
                (sz - uint (usb_descriptor_header.bLength header)))
      else Some (buffer, sz))"
  by pat_completeness auto
termination
  by (relation "measure (\<lambda>(K, m, buffer, sz). nat sz)")
     (auto simp: DESC_HEADER_LENGTH_def)

declare parse_configuration_skip.simps [simp del]

text \<open>
  The loop of lines 359-411 over the \<open>n = bNumInterfaces\<close> slots of the array \<open>ifs\<close>, from
  index \<open>i\<close>. The array is the one \<open>config\<close> points to, so the field is kept in step with it.
  Each \<^verbatim>\<open>goto err\<close> runs \<^verbatim>\<open>clear_configuration\<close> on the configuration (lines 415-417); after a
  failure of \<^verbatim>\<open>parse_interface\<close> the slot \<open>i\<close> it walks is the interface that
  \<^verbatim>\<open>parse_interface\<close> has torn down already. The \<^verbatim>\<open>return size\<close> of line 413 runs no teardown,
  also when \<open>size\<close> is negative.
\<close>

function parse_configuration_interfaces ::
  "libusbi \<Rightarrow> alloc \<Rightarrow> mem \<Rightarrow> nat \<Rightarrow> nat \<Rightarrow> libusb_config_descriptor \<Rightarrow>
     libusb_interface list \<Rightarrow> nat \<Rightarrow> int \<Rightarrow> nat \<Rightarrow> int \<times> libusb_config_descriptor \<times> nat" where
  "parse_configuration_interfaces K al m n i config ifs buffer sz k =
     (if i < n then
        (case parse_configuration_skip K m buffer sz of
           None \<Rightarrow> (LIBUSB_ERROR_IO K, clear_configuration config, k)
         | Some (buffer1, sz1) \<Rightarrow>
             let len = int buffer1 - int buffer;
                 copy = (len \<noteq> 0 \<and> libusb_config_descriptor.extra_length config = 0)
             in
             if copy \<and> \<not> al k
               then (LIBUSB_ERROR_NO_MEM K,
                     clear_configuration (config\<lparr>libusb_config_descriptor.extra := Null\<rparr>),
                     Suc k)
             else
               let config1 = (if copy
                     then config\<lparr>libusb_config_descriptor.extra := Ptr (bytes m buffer buffer1),
                                 libusb_config_descriptor.extra_length := len\<rparr>
                     else config);
                   k1 = (if copy then Suc k else k)
               in
               (case parse_interface K al k1 (ifs ! i) m buffer1 sz1 of
                  (r, ifc, k2) \<Rightarrow>
                    if r < 0
                      then (r, clear_configuration
                                 (config1\<lparr>interface := Ptr (ifs[i := ifc])\<rparr>), k2)
                    else parse_configuration_interfaces K al m n (i + 1)
                           (config1\<lparr>interface := Ptr (ifs[i := ifc])\<rparr>) (ifs[i := ifc])
                           (buffer1 + nat r) (sz1 - r) k2))
      else (sz, config, k))"
  by pat_completeness auto
termination
  by (relation "measure (\<lambda>(K, al, m, n, i, config, ifs, buffer, sz, k). n - i)") auto

declare parse_configuration_interfaces.simps [simp del]

text \<open>
  \<open>config\<close> is the structure the caller allocated: the codec overwrites its header fields
  and leaves the others as they were, so the two early returns (lines 343 and 350, before
  the label \<^verbatim>\<open>err\<close> is in use) give back the extra pointer and length of the caller's
  structure untouched.
\<close>

definition parse_configuration ::
  "libusbi \<Rightarrow> alloc \<Rightarrow> nat \<Rightarrow> libusb_config_descriptor \<Rightarrow> mem \<Rightarrow> nat \<Rightarrow>
     int \<times> libusb_config_descriptor \<times> nat" where
  "parse_configuration K al k config m buffer =
     (let config1 = fold put_config (fst (usbi_parse_descriptor K m buffer ''bbwbbbbb'')) config;
          sz = uint (wTotalLength config1)
      in
      if unat (bNumInterfaces config1) > USB_MAXINTERFACES K
        then (LIBUSB_ERROR_IO K, config1, k)
      else if \<not> al k
        then (LIBUSB_ERROR_NO_MEM K, config1\<lparr>interface := Null\<rparr>, Suc k)
      else
        let ifs = replicate (unat (bNumInterfaces config1)) zero_interface in
        parse_configuration_interfaces K al m (unat (bNumInterfaces config1)) 0
          (config1\<lparr>interface := Ptr ifs, libusb_config_descriptor.extra := Null,
                   libusb_config_descriptor.extra_length := 0\<rparr>)
          ifs
          (buffer + unat (libusb_config_descriptor.bLength config1))
          (sz - uint (libusb_config_descriptor.bLength config1))
          (Suc k))"

section \<open>The retrieval entry points\<close>

text \<open>
  Modelled from the spec: the device structure and the backend table of \<^verbatim>\<open>libusbi.h\<close>, which
  are not in src/ (spec section 6: a backend call fills a buffer and returns the bytes written
  or an error). \<^verbatim>\<open>num_configurations\<close> is an 8-bit field. A backend call returns its result
  and the contents of the buffer it was given, as they are after the call; the buffer starts
  at address 0 of that memory.
\<close>

record libusb_device =
  num_configurations :: u8

record usbi_os_backend =
  get_device_descriptor :: "libusb_device \<Rightarrow> int \<times> mem"
  get_active_config_descriptor :: "libusb_device \<Rightarrow> nat \<Rightarrow> int \<times> mem"
  get_config_descriptor :: "libusb_device \<Rightarrow> u8 \<Rightarrow> nat \<Rightarrow> int \<times> mem"

definition libusb_get_device_descriptor ::
  "libusbi \<Rightarrow> usbi_os_backend \<Rightarrow> libusb_device \<Rightarrow> libusb_device_descriptor \<Rightarrow>
     int \<times> libusb_device_descriptor" where
  "libusb_get_device_descriptor K B dev desc =
     (case get_device_descriptor B dev of
        (r, raw_desc) \<Rightarrow>
          if r < 0 then (r, desc)
          else (0, fold put_device
                     (fst (usbi_parse_descriptor K raw_desc 0 ''bbWbbbbWWWbbbb'')) desc))"


definition libusb_get_config_descriptor ::
  "libusbi \<Rightarrow> usbi_os_backend \<Rightarrow> alloc \<Rightarrow> nat \<Rightarrow> libusb_config_descriptor \<Rightarrow> libusb_device \<Rightarrow>
     u8 \<Rightarrow> libusb_config_descriptor option \<times> bool \<times> nat" where
  "libusb_get_config_descriptor K B al k config dev config_index =
     (if config_index \<ge> num_configurations dev then (None, False, k)
      else if \<not> al k then (None, False, Suc k)
      else case get_config_descriptor B dev config_index 8 of
        (r, tmp) \<Rightarrow>
          if r < 0 then (None, False, Suc k)
          else
            let config1 = fold put_config (fst (usbi_parse_descriptor K tmp 0 ''bbw'')) config in
            if \<not> al (Suc k) then (None, False, Suc (Suc k))
            else case get_config_descriptor B dev config_index (unat (wTotalLength config1)) of
              (r, buf) \<Rightarrow>
                if r < 0 then (None, False, Suc (Suc k))
                else case parse_configuration K al (Suc (Suc k)) config1 buf 0 of
                  (r, config2, k2) \<Rightarrow>
                    if r < 0 then (None, False, k2)
                    else (Some config2, r > 0, k2))"

text \<open>
  The probe loop of lines 583-592. \<open>None\<close> is the \<^verbatim>\<open>return NULL\<close> inside the loop; otherwise
  the loop ends with \<open>found\<close> and \<open>i\<close>. \<open>i\<close> is an \<^verbatim>\<open>int\<close> passed where the backend and
  \<^verbatim>\<open>libusb_get_config_descriptor\<close> take a \<^verbatim>\<open>uint8_t\<close>: it is truncated to 8 bits.
  \<open>bConfigValue\<close> is the parameter \<^verbatim>\<open>bConfigurationValue\<close>.
\<close>

function by_value_loop ::
  "usbi_os_backend \<Rightarrow> libusb_device \<Rightarrow> u8 \<Rightarrow> nat \<Rightarrow> (int \<times> nat) option" where
  "by_value_loop B dev bConfigValue i =
     (if i < unat (num_configurations dev) then
        (case get_config_descriptor B dev (word_of_nat i) 6 of
           (r, tmp) \<Rightarrow>
             if r < 0 then None
             else if tmp 5 = bConfigValue then Some (1, i)
             else by_value_loop B dev bConfigValue (i + 1))
      else Some (- 1, i))"
  by pat_completeness auto
termination
  by (relation "measure (\<lambda>(B, dev, v, i). unat (num_configurations dev) - i)") auto

declare by_value_loop.simps [simp del]

definition libusb_get_config_descriptor_by_value ::
  "libusbi \<Rightarrow> usbi_os_backend \<Rightarrow> alloc \<Rightarrow> nat \<Rightarrow> libusb_config_descriptor \<Rightarrow> libusb_device \<Rightarrow>
     u8 \<Rightarrow> libusb_config_descriptor option \<times> bool \<times> nat" where
  "libusb_get_config_descriptor_by_value K B al k config dev bConfigValue =
     (case by_value_loop B dev bConfigValue 0 of
        None \<Rightarrow> (None, False, k)
      | Some (found, i) \<Rightarrow>
          if found = 0 then (None, False, k)
          else libusb_get_config_descriptor K B al k config dev (word_of_nat i))"

section \<open>The string descriptor as ASCII\<close>

text \<open>
  \<^verbatim>\<open>libusb_get_string_descriptor\<close> is an inline function of \<^verbatim>\<open>libusb.h\<close> that performs a
  control transfer; it is a parameter \<open>gsd\<close>: given the descriptor index and the language id
  it returns its result \<open>r\<close> and the contents of \<open>tbuf\<close> after the call.
  The output buffer \<open>data\<close> is memory that the function updates.
\<close>

type_synonym get_string_descriptor = "u8 \<Rightarrow> int \<Rightarrow> int \<times> mem"

function ascii_loop :: "mem \<Rightarrow> int \<Rightarrow> nat \<Rightarrow> nat \<Rightarrow> mem \<Rightarrow> nat \<times> mem" where
  "ascii_loop tbuf len si di data =
     (if si < unat (tbuf 0) then
        (if int di \<ge> len - 1 then (di, data)
         else if tbuf (si + 1) \<noteq> 0
           then ascii_loop tbuf len (si + 2) (di + 1) (data(di := 63))
           else ascii_loop tbuf len (si + 2) (di + 1) (data(di := tbuf si)))
      else (di, data))"
  by pat_completeness auto
termination
  by (relation "measure (\<lambda>(tbuf, len, si, di, data). unat (tbuf 0) - si)") auto

declare ascii_loop.simps [simp del]

definition libusb_get_string_descriptor_ascii ::
  "libusbi \<Rightarrow> get_string_descriptor \<Rightarrow> u8 \<Rightarrow> mem \<Rightarrow> int \<Rightarrow> int \<times> mem" where
  "libusb_get_string_descriptor_ascii K gsd desc_index data len =
     (let (r, tbuf) = gsd 0 0 in
      if r < 0 then (r, data)
      else if r < 4 then (LIBUSB_ERROR_IO K, data)
      else
        let langid = uint (tbuf 2) OR push_bit 8 (uint (tbuf 3));
            (r, tbuf) = gsd desc_index langid in
        if r < 0 then (r, data)
        else if tbuf 1 \<noteq> LIBUSB_DT_STRING then (LIBUSB_ERROR_IO K, data)
        else if uint (tbuf 0) > r then (LIBUSB_ERROR_IO K, data)
        else
          let (di, data) = ascii_loop tbuf len 2 0 data
          in (int di, data(di := 0)))"

section \<open>Properties of the string reduction\<close>

text \<open>A device for concrete runs: one language, 0x0409, and every string descriptor is \<open>bs\<close>.\<close>

definition example_gsd :: "u8 list \<Rightarrow> get_string_descriptor" where
  "example_gsd bs = (\<lambda>i langid. if i = 0 then (4, mem_of [4, 3, 9, 4]) else (int (length bs), mem_of bs))"

text \<open>What the loop writes for the code unit at byte offset \<open>si\<close>, and the number of code
  units that start below the declared length \<open>tbuf[0]\<close> (at offsets 2, 4, ...).\<close>

definition ascii_unit :: "mem \<Rightarrow> nat \<Rightarrow> u8" where
  "ascii_unit tbuf si = (if tbuf (si + 1) \<noteq> 0 then 63 else tbuf si)"

definition ascii_units :: "mem \<Rightarrow> nat" where
  "ascii_units tbuf = (unat (tbuf 0) - 1) div 2"

lemma ascii_loop_frame:
  "ascii_loop tbuf len si di data = (di', data') \<Longrightarrow>
     di \<le> di' \<and> (\<forall>j. j < di \<or> di' \<le> j \<longrightarrow> data' j = data j)"
proof (induction tbuf len si di data rule: ascii_loop.induct)
  case (1 tbuf len si di data)
  show ?case
  proof (cases "si < unat (tbuf 0) \<and> \<not> int di \<ge> len - 1")
    case False
    with "1.prems" show ?thesis by (subst (asm) ascii_loop.simps) (auto split: if_splits)
  next
    case True
    show ?thesis
    proof (cases "tbuf (si + 1) \<noteq> 0")
      case hi: True
      from True hi "1.prems" have "ascii_loop tbuf len (si + 2) (di + 1) (data(di := 63)) = (di', data')"
        by (subst (asm) ascii_loop.simps) simp
      from "1.IH"(1)[OF _ _ hi this] True show ?thesis by auto
    next
      case lo: False
      from True lo "1.prems" have "ascii_loop tbuf len (si + 2) (di + 1) (data(di := tbuf si)) = (di', data')"
        by (subst (asm) ascii_loop.simps) simp
      from "1.IH"(2)[OF _ _ lo this] True show ?thesis by auto
    qed
  qed
qed

lemma ascii_loop_bound:
  "ascii_loop tbuf len si di data = (di', data') \<Longrightarrow> int di \<le> len - 1 \<Longrightarrow> int di' \<le> len - 1"
proof (induction tbuf len si di data rule: ascii_loop.induct)
  case (1 tbuf len si di data)
  show ?case
  proof (cases "si < unat (tbuf 0) \<and> \<not> int di \<ge> len - 1")
    case False
    with "1.prems" show ?thesis by (subst (asm) ascii_loop.simps) (auto split: if_splits)
  next
    case True
    show ?thesis
    proof (cases "tbuf (si + 1) \<noteq> 0")
      case hi: True
      from True hi "1.prems" have "ascii_loop tbuf len (si + 2) (di + 1) (data(di := 63)) = (di', data')"
        by (subst (asm) ascii_loop.simps) simp
      from "1.IH"(1)[OF _ _ hi this] True show ?thesis by auto
    next
      case lo: False
      from True lo "1.prems" have "ascii_loop tbuf len (si + 2) (di + 1) (data(di := tbuf si)) = (di', data')"
        by (subst (asm) ascii_loop.simps) simp
      from "1.IH"(2)[OF _ _ lo this] True show ?thesis by auto
    qed
  qed
qed

lemma ascii_loop_step:
  "si < unat (tbuf 0) \<Longrightarrow> \<not> int di \<ge> len - 1 \<Longrightarrow>
     ascii_loop tbuf len si di data =
       ascii_loop tbuf len (si + 2) (di + 1) (data(di := ascii_unit tbuf si))"
  by (subst ascii_loop.simps) (simp add: ascii_unit_def)

lemma ascii_loop_stop:
  "\<not> (si < unat (tbuf 0) \<and> \<not> int di \<ge> len - 1) \<Longrightarrow> ascii_loop tbuf len si di data = (di, data)"
  by (subst ascii_loop.simps) auto

lemma ascii_loop_result:
  "ascii_loop tbuf len si di data = (di', data') \<Longrightarrow>
     di' = di + min ((unat (tbuf 0) + 1 - si) div 2) (nat (len - 1 - int di)) \<and>
     (\<forall>j. j < di' - di \<longrightarrow> data' (di + j) = ascii_unit tbuf (si + 2 * j))"
proof (induction tbuf len si di data rule: ascii_loop.induct)
  case (1 tbuf len si di data)
  show ?case
  proof (cases "si < unat (tbuf 0) \<and> \<not> int di \<ge> len - 1")
    case False
    with "1.prems" have "di' = di" by (simp add: ascii_loop_stop)
    moreover from False have "min ((unat (tbuf 0) + 1 - si) div 2) (nat (len - 1 - int di)) = 0"
      by auto
    ultimately show ?thesis by simp
  next
    case True
    let ?d = "data(di := ascii_unit tbuf si)"
    from True "1.prems" have rec: "ascii_loop tbuf len (si + 2) (di + 1) ?d = (di', data')"
      by (simp add: ascii_loop_step)
    have ih: "di' = di + 1 + min ((unat (tbuf 0) + 1 - (si + 2)) div 2) (nat (len - 1 - int (di + 1))) \<and>
       (\<forall>j. j < di' - (di + 1) \<longrightarrow> data' (di + 1 + j) = ascii_unit tbuf (si + 2 + 2 * j))"
    proof (cases "tbuf (si + 1) \<noteq> 0")
      case hi: True
      then have "?d = data(di := 63)" by (simp add: ascii_unit_def)
      with rec have rec': "ascii_loop tbuf len (si + 2) (di + 1) (data(di := 63)) = (di', data')"
        by simp
      from "1.IH"(1)[OF _ _ hi rec'] True show ?thesis by simp
    next
      case lo: False
      then have "?d = data(di := tbuf si)" by (simp add: ascii_unit_def)
      with rec have rec': "ascii_loop tbuf len (si + 2) (di + 1) (data(di := tbuf si)) = (di', data')"
        by simp
      from "1.IH"(2)[OF _ _ lo rec'] True show ?thesis by simp
    qed
    from ascii_loop_frame[OF rec] have keep: "data' di = ascii_unit tbuf si" by simp
    have cntA: "(unat (tbuf 0) + 1 - si) div 2 = Suc ((unat (tbuf 0) + 1 - (si + 2)) div 2)"
      using True by presburger
    have cntB: "nat (len - 1 - int di) = Suc (nat (len - 1 - int (di + 1)))"
      using True by arith
    have cnt: "di' = di + min ((unat (tbuf 0) + 1 - si) div 2) (nat (len - 1 - int di))"
      unfolding cntA cntB using ih by simp
    moreover have "data' (di + j) = ascii_unit tbuf (si + 2 * j)" if "j < di' - di" for j
    proof (cases j)
      case 0
      with keep show ?thesis by simp
    next
      case (Suc j')
      with that ih show ?thesis by (auto simp: add.commute add.left_commute)
    qed
    ultimately show ?thesis by blast
  qed
qed

text \<open>
  Claim C8, as the code has it. After the two fetches succeed, the function writes, for each
  UTF-16 code unit at byte offsets 2, 4, ... below the declared length \<open>tbuf[0]\<close>, its low
  byte when the high byte is zero and \<open>?\<close> (63) otherwise, stopping after \<open>length - 1\<close>
  characters; it returns their number and terminates the output with a zero byte.
  The scenario of the claim does not follow: the bytes \<open>04 03 41 00 42 20\<close> declare a
  length of 4, which holds one code unit, and the output is \<open>"A"\<close>
  (\<open>ascii_scenario_counterexample\<close>); with a declared length of 6 the output is \<open>"A?"\<close>
  (\<open>ascii_reduction_witness\<close>).
\<close>

theorem ascii_reduction:
  assumes "gsd 0 0 = (r0, t0)" and "4 \<le> r0"
    and "gsd desc_index (uint (t0 2) OR push_bit 8 (uint (t0 3))) = (r1, tbuf)"
    and "0 \<le> r1" and "tbuf 1 = LIBUSB_DT_STRING" and "uint (tbuf 0) \<le> r1"
    and "n = min (ascii_units tbuf) (nat (len - 1))"
  shows "\<exists>data'. libusb_get_string_descriptor_ascii K gsd desc_index data len = (int n, data') \<and>
           bytes data' 0 n = map (\<lambda>j. ascii_unit tbuf (2 + 2 * j)) [0..<n] \<and> data' n = 0"
proof -
  obtain di d1 where lp: "ascii_loop tbuf len 2 0 data = (di, d1)"
    by (cases "ascii_loop tbuf len 2 0 data")
  from ascii_loop_result[OF lp] assms(7)
  have di: "di = n" and un: "\<forall>j. j < n \<longrightarrow> d1 j = ascii_unit tbuf (2 + 2 * j)"
    by (simp_all add: ascii_units_def)
  from assms lp have "libusb_get_string_descriptor_ascii K gsd desc_index data len = (int di, d1(di := 0))"
    by (simp add: libusb_get_string_descriptor_ascii_def)
  moreover have "bytes (d1(di := 0)) 0 n = map (\<lambda>j. ascii_unit tbuf (2 + 2 * j)) [0..<n]"
    using un di by (simp add: bytes_def)
  ultimately show ?thesis using di by simp
qed

theorem ascii_reduction_witness:
  "fst (libusb_get_string_descriptor_ascii libusb_1_0 (example_gsd [6, 3, 0x41, 0, 0x42, 0x20]) 1 (\<lambda>_. 0) 255) = 2 \<and>
   bytes (snd (libusb_get_string_descriptor_ascii libusb_1_0 (example_gsd [6, 3, 0x41, 0, 0x42, 0x20]) 1 (\<lambda>_. 0) 255)) 0 2
     = [0x41, 0x3F] \<and>
   snd (libusb_get_string_descriptor_ascii libusb_1_0 (example_gsd [6, 3, 0x41, 0, 0x42, 0x20]) 1 (\<lambda>_. 0) 255) 2 = 0"
proof -
  let ?bs = "[6, 3, 0x41, 0, 0x42, 0x20] :: u8 list"
  let ?t0 = "mem_of [4, 3, 9, 4]"
  have g0: "example_gsd ?bs 0 0 = (4, ?t0)" by (simp add: example_gsd_def)
  have g1: "example_gsd ?bs 1 (uint (?t0 2) OR push_bit 8 (uint (?t0 3))) = (6, mem_of ?bs)"
    by (simp add: example_gsd_def)
  have n: "(2::nat) = min (ascii_units (mem_of ?bs)) (nat (255 - 1))"
    by (simp add: ascii_units_def mem_of_def)
  have u: "map (\<lambda>j. ascii_unit (mem_of ?bs) (2 + 2 * j)) [0..<2] = [0x41, 0x3F]"
    by code_simp
  from ascii_reduction[OF g0 _ g1 _ _ _ n, of libusb_1_0 "\<lambda>_. 0"] u show ?thesis
    by (auto simp: mem_of_def LIBUSB_DT_STRING_def)
qed

theorem ascii_scenario_counterexample:
  "fst (libusb_get_string_descriptor_ascii libusb_1_0 (example_gsd [4, 3, 0x41, 0, 0x42, 0x20]) 1 (\<lambda>_. 0) 255) = 1 \<and>
   bytes (snd (libusb_get_string_descriptor_ascii libusb_1_0 (example_gsd [4, 3, 0x41, 0, 0x42, 0x20]) 1 (\<lambda>_. 0) 255)) 0 2
     = [0x41, 0] \<and>
   bytes (snd (libusb_get_string_descriptor_ascii libusb_1_0 (example_gsd [4, 3, 0x41, 0, 0x42, 0x20]) 1 (\<lambda>_. 0) 255)) 0 2
     \<noteq> [0x41, 0x3F]"
  by code_simp

text \<open>
  Claim C10. A call with capacity \<open>length \<ge> 1\<close> that returns a count \<open>di \<ge> 0\<close> has
  \<open>di \<le> length - 1\<close>, has written the terminating zero at index \<open>di\<close>, and has left every
  byte of the output buffer beyond index \<open>di\<close> as it was; so at most \<open>length - 1\<close> character
  bytes are written.
\<close>

theorem ascii_output_bounds:
  assumes "errors_negative K" and "1 \<le> len"
    and "libusb_get_string_descriptor_ascii K gsd desc_index data len = (r, data')"
    and "0 \<le> r"
  shows "r \<le> len - 1 \<and> data' (nat r) = 0 \<and> (\<forall>j. nat r < j \<longrightarrow> data' j = data j)"
proof -
  obtain r0 t0 where g0: "gsd 0 0 = (r0, t0)" by (cases "gsd 0 0")
  obtain r1 tbuf where g1: "gsd desc_index (uint (t0 2) OR push_bit 8 (uint (t0 3))) = (r1, tbuf)"
    by (cases "gsd desc_index (uint (t0 2) OR push_bit 8 (uint (t0 3)))")
  obtain di d1 where lp: "ascii_loop tbuf len 2 0 data = (di, d1)"
    by (cases "ascii_loop tbuf len 2 0 data")
  from assms g0 g1 lp have res: "r = int di" "data' = d1(di := 0)"
    by (auto simp: libusb_get_string_descriptor_ascii_def errors_negative_def Let_def split: if_splits)
  from ascii_loop_bound[OF lp] assms(2) have "int di \<le> len - 1" by simp
  moreover from ascii_loop_frame[OF lp] have "\<forall>j. di \<le> j \<longrightarrow> d1 j = data j" by simp
  ultimately show ?thesis using res by auto
qed


theorem ascii_output_bounds_witness:
  "errors_negative libusb_1_0 \<and> (1::int) \<le> 2 \<and>
   fst (libusb_get_string_descriptor_ascii libusb_1_0 (example_gsd [6, 3, 0x41, 0, 0x42, 0x20]) 1 (\<lambda>_. 170) 2) = 1 \<and>
   snd (libusb_get_string_descriptor_ascii libusb_1_0 (example_gsd [6, 3, 0x41, 0, 0x42, 0x20]) 1 (\<lambda>_. 170) 2) 1 = 0 \<and>
   snd (libusb_get_string_descriptor_ascii libusb_1_0 (example_gsd [6, 3, 0x41, 0, 0x42, 0x20]) 1 (\<lambda>_. 170) 2) 2 = 170"
proof -
  let ?res = "libusb_get_string_descriptor_ascii libusb_1_0 (example_gsd [6, 3, 0x41, 0, 0x42, 0x20]) 1 (\<lambda>_. 170) 2"
  have e: "errors_negative libusb_1_0" by (simp add: errors_negative_def libusb_1_0_def)
  have f: "fst ?res = 1" by code_simp
  then have r: "?res = (1, snd ?res)" by (metis prod.collapse)
  from ascii_output_bounds[OF e _ r] have "snd ?res (nat 1) = 0 \<and> (\<forall>j. nat 1 < j \<longrightarrow> snd ?res j = 170)"
    by simp
  then have "snd ?res 1 = 0 \<and> snd ?res 2 = 170" by simp
  with e f show ?thesis by simp
qed


section \<open>Properties of the device descriptor\<close>

text \<open>
  Re-encoding, in the words of the spec: a byte field is written as it is, a field that the
  codec filled in host order is written back in host order. (The device format has no
  little-endian field.)
\<close>

definition native_bytes :: "bool \<Rightarrow> u16 \<Rightarrow> u8 list" where
  "native_bytes be v = (if be then [ucast (drop_bit 8 v), ucast v] else [ucast v, ucast (drop_bit 8 v)])"

definition encode_device :: "bool \<Rightarrow> libusb_device_descriptor \<Rightarrow> u8 list" where
  "encode_device be d =
     [libusb_device_descriptor.bLength d, libusb_device_descriptor.bDescriptorType d] @
     native_bytes be (bcdUSB d) @
     [bDeviceClass d, bDeviceSubClass d, bDeviceProtocol d, bMaxPacketSize0 d] @
     native_bytes be (idVendor d) @ native_bytes be (idProduct d) @ native_bytes be (bcdDevice d) @
     [iManufacturer d, iProduct d, iSerialNumber d, bNumConfigurations d]"

lemma le16_low: "ucast (le16 b0 b1) = b0"
  by (rule bit_word_eqI) (auto simp: le16_def bit_simps)

lemma le16_high: "ucast (drop_bit 8 (le16 b0 b1)) = b1"
  by (rule bit_word_eqI) (auto simp: le16_def bit_simps dest: bit_imp_le_length)

lemma native_bytes_native16: "native_bytes be (native16 be b0 b1) = [b0, b1]"
  by (simp add: native_bytes_def native16_def le16_low le16_high)

lemma usbi_parse_descriptor_device:
  "usbi_parse_descriptor K m source ''bbWbbbbWWWbbbb'' =
     ([(0, U8 (m source)), (1, U8 (m (source + 1))),
       (2, U16 (native16 (host_big_endian K) (m (source + 2)) (m (source + 3)))),
       (4, U8 (m (source + 4))), (5, U8 (m (source + 5))), (6, U8 (m (source + 6))),
       (7, U8 (m (source + 7))),
       (8, U16 (native16 (host_big_endian K) (m (source + 8)) (m (source + 9)))),
       (10, U16 (native16 (host_big_endian K) (m (source + 10)) (m (source + 11)))),
       (12, U16 (native16 (host_big_endian K) (m (source + 12)) (m (source + 13)))),
       (14, U8 (m (source + 14))), (15, U8 (m (source + 15))), (16, U8 (m (source + 16))),
       (17, U8 (m (source + 17)))], 18)"
  by (simp add: usbi_parse_descriptor_def) (simp_all add: eval_nat_numeral)

lemma bytes_18:
  "bytes m s (s + 18) = [m s, m (s + 1), m (s + 2), m (s + 3), m (s + 4), m (s + 5), m (s + 6),
     m (s + 7), m (s + 8), m (s + 9), m (s + 10), m (s + 11), m (s + 12), m (s + 13), m (s + 14),
     m (s + 15), m (s + 16), m (s + 17)]"
proof -
  have "[s..<s + 18] = map (\<lambda>i. i + s) [0..<18]"
    by (simp add: map_add_upt add.commute)
  also have "[0..<18] = [0,1,2,3,4,5,6,7,8,9,10,11,12,13,14,15,16,17::nat]"
    by code_simp
  finally show ?thesis by (simp add: bytes_def add.commute)
qed

text \<open>
  Claim C7. For every 18-byte buffer, decoding it with the device-descriptor format
  \<^verbatim>\<open>"bbWbbbbWWWbbbb"\<close> consumes exactly 18 source bytes, and re-encoding the typed fields
  gives back the 18 bytes, on either byte order of the host; so does the descriptor that
  \<^verbatim>\<open>libusb_get_device_descriptor\<close> returns when the backend succeeds.
\<close>

theorem device_descriptor_roundtrip:
  "snd (usbi_parse_descriptor K m source ''bbWbbbbWWWbbbb'') = 18 \<and>
   encode_device (host_big_endian K)
     (fold put_device (fst (usbi_parse_descriptor K m source ''bbWbbbbWWWbbbb'')) desc) =
   bytes m source (source + DEVICE_DESC_LENGTH) \<and>
   encode_device (host_big_endian K) (snd (libusb_get_device_descriptor K B dev desc)) =
     (if fst (get_device_descriptor B dev) < 0 then encode_device (host_big_endian K) desc
      else bytes (snd (get_device_descriptor B dev)) 0 DEVICE_DESC_LENGTH)"
proof -
  have rt: "encode_device (host_big_endian K)
     (fold put_device (fst (usbi_parse_descriptor K m' s ''bbWbbbbWWWbbbb'')) desc) =
     bytes m' s (s + 18)" for m' s
    by (simp add: usbi_parse_descriptor_device put_device_def encode_device_def
        native_bytes_native16 bytes_18)
  obtain r raw where g: "get_device_descriptor B dev = (r, raw)"
    by (cases "get_device_descriptor B dev")
  have "encode_device (host_big_endian K) (snd (libusb_get_device_descriptor K B dev desc)) =
     (if r < 0 then encode_device (host_big_endian K) desc else bytes raw 0 18)"
    using rt[of raw 0] by (simp add: libusb_get_device_descriptor_def g)
  with rt[of m source] g show ?thesis
    by (simp add: usbi_parse_descriptor_device DEVICE_DESC_LENGTH_def)
qed

section \<open>Properties of the lookup by configuration value\<close>

text \<open>The probe of configuration index \<open>i\<close> succeeds and its byte at offset 5 is the value sought.\<close>

definition probe_matches :: "usbi_os_backend \<Rightarrow> libusb_device \<Rightarrow> u8 \<Rightarrow> nat \<Rightarrow> bool" where
  "probe_matches B dev v i =
     (0 \<le> fst (get_config_descriptor B dev (word_of_nat i) 6) \<and>
      snd (get_config_descriptor B dev (word_of_nat i) 6) 5 = v)"

text \<open>The probe of index \<open>i\<close> succeeds and its byte differs: the loop goes on to \<open>i + 1\<close>.\<close>

definition probe_passes :: "usbi_os_backend \<Rightarrow> libusb_device \<Rightarrow> u8 \<Rightarrow> nat \<Rightarrow> bool" where
  "probe_passes B dev v i =
     (0 \<le> fst (get_config_descriptor B dev (word_of_nat i) 6) \<and>
      snd (get_config_descriptor B dev (word_of_nat i) 6) 5 \<noteq> v)"

lemma by_value_loop_found:
  "i \<le> j \<Longrightarrow> j < unat (num_configurations dev) \<Longrightarrow> probe_matches B dev v j \<Longrightarrow>
   (\<forall>l. i \<le> l \<and> l < j \<longrightarrow> probe_passes B dev v l) \<Longrightarrow>
     by_value_loop B dev v i = Some (1, j)"
proof (induction B dev v i rule: by_value_loop.induct)
  case (1 B dev v i)
  obtain r tmp where g: "get_config_descriptor B dev (word_of_nat i) 6 = (r, tmp)"
    by (cases "get_config_descriptor B dev (word_of_nat i) 6")
  show ?case
  proof (cases "i = j")
    case True
    with "1.prems" g show ?thesis
      by (subst by_value_loop.simps) (simp add: probe_matches_def)
  next
    case False
    with "1.prems" have lt: "i < j" and pass: "probe_passes B dev v i" by auto
    from pass g have ok: "\<not> r < 0" "tmp 5 \<noteq> v" by (simp_all add: probe_passes_def)
    from lt "1.prems" have i: "i < unat (num_configurations dev)" by simp
    have "by_value_loop B dev v (i + 1) = Some (1, j)"
      using "1.IH"[OF i g[symmetric] ok] lt "1.prems" by simp
    with i g ok show ?thesis by (subst by_value_loop.simps) simp
  qed
qed

lemma by_value_loop_none:
  "(\<forall>l. i \<le> l \<and> l < unat (num_configurations dev) \<longrightarrow> \<not> probe_matches B dev v l) \<Longrightarrow>
   i \<le> unat (num_configurations dev) \<Longrightarrow>
     by_value_loop B dev v i = None \<or>
     by_value_loop B dev v i = Some (- 1, unat (num_configurations dev))"
proof (induction B dev v i rule: by_value_loop.induct)
  case (1 B dev v i)
  obtain r tmp where g: "get_config_descriptor B dev (word_of_nat i) 6 = (r, tmp)"
    by (cases "get_config_descriptor B dev (word_of_nat i) 6")
  show ?case
  proof (cases "i < unat (num_configurations dev)")
    case False
    with "1.prems" have "i = unat (num_configurations dev)" by simp
    then show ?thesis by (subst (2) by_value_loop.simps) simp
  next
    case True
    show ?thesis
    proof (cases "r < 0")
      case neg: True
      with True g show ?thesis by (subst by_value_loop.simps) simp
    next
      case nn: False
      from "1.prems"(1) True have "\<not> probe_matches B dev v i" by simp
      with g nn have ne: "tmp 5 \<noteq> v" by (simp add: probe_matches_def)
      have "by_value_loop B dev v (i + 1) = None \<or>
            by_value_loop B dev v (i + 1) = Some (- 1, unat (num_configurations dev))"
        using "1.IH"[OF True g[symmetric] nn ne] "1.prems" True by simp
      moreover have "by_value_loop B dev v i = by_value_loop B dev v (i + 1)"
        using True g nn ne by (subst by_value_loop.simps) simp
      ultimately show ?thesis by simp
    qed
  qed
qed

text \<open>The probe of index \<open>i\<close> fails: the loop is left by the \<^verbatim>\<open>return NULL\<close> of line 587.\<close>

definition probe_fails :: "usbi_os_backend \<Rightarrow> libusb_device \<Rightarrow> nat \<Rightarrow> bool" where
  "probe_fails B dev i = (fst (get_config_descriptor B dev (word_of_nat i) 6) < 0)"

lemma by_value_loop_fails:
  "i \<le> j \<Longrightarrow> j < unat (num_configurations dev) \<Longrightarrow> probe_fails B dev j \<Longrightarrow>
   (\<forall>l. i \<le> l \<and> l < j \<longrightarrow> probe_passes B dev v l) \<Longrightarrow>
     by_value_loop B dev v i = None"
proof (induction B dev v i rule: by_value_loop.induct)
  case (1 B dev v i)
  obtain r tmp where g: "get_config_descriptor B dev (word_of_nat i) 6 = (r, tmp)"
    by (cases "get_config_descriptor B dev (word_of_nat i) 6")
  show ?case
  proof (cases "i = j")
    case True
    with "1.prems" g show ?thesis
      by (subst by_value_loop.simps) (simp add: probe_fails_def)
  next
    case False
    with "1.prems" have lt: "i < j" and pass: "probe_passes B dev v i" by auto
    from pass g have ok: "\<not> r < 0" "tmp 5 \<noteq> v" by (simp_all add: probe_passes_def)
    from lt "1.prems" have i: "i < unat (num_configurations dev)" by simp
    have "by_value_loop B dev v (i + 1) = None"
      using "1.IH"[OF i g[symmetric] ok] lt "1.prems" by simp
    with i g ok show ?thesis by (subst by_value_loop.simps) simp
  qed
qed

text \<open>A zeroed configuration structure, and a device with two configurations (values 1 and
  2, one interface without endpoints each) behind a backend that never fails; for concrete runs.\<close>

definition zero_config :: libusb_config_descriptor where
  "zero_config = \<lparr>libusb_config_descriptor.bLength = 0,
     libusb_config_descriptor.bDescriptorType = 0, wTotalLength = 0, bNumInterfaces = 0,
     bConfigurationValue = 0, iConfiguration = 0, libusb_config_descriptor.bmAttributes = 0,
     MaxPower = 0, interface = Null, libusb_config_descriptor.extra = Null,
     libusb_config_descriptor.extra_length = 0\<rparr>"

definition example_device :: libusb_device where
  "example_device = \<lparr>num_configurations = 2\<rparr>"

definition example_config :: "u8 \<Rightarrow> u8 list" where
  "example_config v = [9, 2, 18, 0, 1, v, 0, 0x80, 0x32, 9, 4, 0, 0, 0, 0xFF, 0, 0, 0]"

definition example_backend :: usbi_os_backend where
  "example_backend =
     \<lparr>get_device_descriptor = (\<lambda>dev. (0, mem_of [])),
      get_active_config_descriptor = (\<lambda>dev len. (int len, mem_of (example_config 1))),
      get_config_descriptor = (\<lambda>dev idx len. (int len, mem_of (example_config (idx + 1))))\<rparr>"

text \<open>A device with three configurations (values 1, 2 and 3) behind a backend whose read of
  configuration index 1 fails.\<close>

definition failing_device :: libusb_device where
  "failing_device = \<lparr>num_configurations = 3\<rparr>"

definition failing_backend :: usbi_os_backend where
  "failing_backend =
     \<lparr>get_device_descriptor = (\<lambda>dev. (0, mem_of [])),
      get_active_config_descriptor = (\<lambda>dev len. (int len, mem_of (example_config 1))),
      get_config_descriptor =
        (\<lambda>dev idx len. if idx = 1 then (- 4, mem_of [])
                        else (int len, mem_of (example_config (idx + 1))))\<rparr>"

text \<open>
  Claim C9, as the code has it. \<^verbatim>\<open>libusb_get_config_descriptor_by_value\<close> probes the indices
  in order, and what decides is the first index whose probe does not succeed with another
  value. If that probe succeeds with the sought value at offset 5, the function returns
  exactly what \<^verbatim>\<open>libusb_get_config_descriptor\<close> returns for that index. If that probe
  fails, the function returns \<^verbatim>\<open>NULL\<close> at once (line 587) without an allocation request,
  whatever the later indices hold. When no index has a successful probe with the sought
  value it returns \<^verbatim>\<open>NULL\<close>, never a descriptor. (When every probe succeeds with another value
  the loop leaves \<open>found = -1\<close>, the test \<^verbatim>\<open>!found\<close> does not fire, and it is the range check
  of \<^verbatim>\<open>libusb_get_config_descriptor\<close> on \<open>i = num_configurations\<close> that yields \<^verbatim>\<open>NULL\<close>.)
\<close>

theorem config_descriptor_by_value:
  "(i < unat (num_configurations dev) \<and> probe_matches B dev v i \<and>
      (\<forall>l. l < i \<longrightarrow> probe_passes B dev v l) \<longrightarrow>
        libusb_get_config_descriptor_by_value K B al k config dev v =
        libusb_get_config_descriptor K B al k config dev (word_of_nat i)) \<and>
   (j < unat (num_configurations dev') \<and> probe_fails B' dev' j \<and>
      (\<forall>l. l < j \<longrightarrow> probe_passes B' dev' w l) \<longrightarrow>
        libusb_get_config_descriptor_by_value K B' al k config dev' w = (None, False, k)) \<and>
   ((\<forall>l. l < unat (num_configurations dev) \<longrightarrow> \<not> probe_matches B dev v' l) \<longrightarrow>
        fst (libusb_get_config_descriptor_by_value K B al k config dev v') = None)"
proof (intro conjI impI)
  assume a: "i < unat (num_configurations dev) \<and> probe_matches B dev v i \<and>
      (\<forall>l. l < i \<longrightarrow> probe_passes B dev v l)"
  then have "by_value_loop B dev v 0 = Some (1, i)"
    by (intro by_value_loop_found) auto
  then show "libusb_get_config_descriptor_by_value K B al k config dev v =
        libusb_get_config_descriptor K B al k config dev (word_of_nat i)"
    by (simp add: libusb_get_config_descriptor_by_value_def)
next
  assume a: "j < unat (num_configurations dev') \<and> probe_fails B' dev' j \<and>
      (\<forall>l. l < j \<longrightarrow> probe_passes B' dev' w l)"
  then have "by_value_loop B' dev' w 0 = None"
    by (intro by_value_loop_fails[of 0 j]) auto
  then show "libusb_get_config_descriptor_by_value K B' al k config dev' w = (None, False, k)"
    by (simp add: libusb_get_config_descriptor_by_value_def)
next
  assume "\<forall>l. l < unat (num_configurations dev) \<longrightarrow> \<not> probe_matches B dev v' l"
  then have "by_value_loop B dev v' 0 = None \<or>
     by_value_loop B dev v' 0 = Some (- 1, unat (num_configurations dev))"
    by (intro by_value_loop_none) auto
  moreover have "fst (libusb_get_config_descriptor K B al k config dev
      (word_of_nat (unat (num_configurations dev)))) = None"
    by (simp add: libusb_get_config_descriptor_def)
  ultimately show "fst (libusb_get_config_descriptor_by_value K B al k config dev v') = None"
    by (auto simp: libusb_get_config_descriptor_by_value_def)
qed

theorem config_descriptor_by_value_witness:
  "(1::nat) < unat (num_configurations example_device) \<and>
   probe_matches example_backend example_device 2 1 \<and>
   probe_passes example_backend example_device 2 0 \<and>
   (1::nat) < unat (num_configurations failing_device) \<and>
   probe_fails failing_backend failing_device 1 \<and>
   probe_passes failing_backend failing_device 3 0 \<and>
   \<not> probe_matches example_backend example_device 3 0 \<and>
   \<not> probe_matches example_backend example_device 3 1 \<and>
   libusb_get_config_descriptor_by_value libusb_1_0 example_backend (\<lambda>_. True) 0 zero_config
     example_device 2 =
   libusb_get_config_descriptor libusb_1_0 example_backend (\<lambda>_. True) 0 zero_config
     example_device 1 \<and>
   map_option bConfigurationValue
     (fst (libusb_get_config_descriptor_by_value libusb_1_0 example_backend (\<lambda>_. True) 0
        zero_config example_device 2)) = Some 2 \<and>
   libusb_get_config_descriptor_by_value libusb_1_0 failing_backend (\<lambda>_. True) 0 zero_config
     failing_device 3 = (None, False, 0) \<and>
   fst (libusb_get_config_descriptor_by_value libusb_1_0 example_backend (\<lambda>_. True) 0 zero_config
     example_device 3) = None"
proof -
  have n: "(1::nat) < unat (num_configurations example_device)"
    "(1::nat) < unat (num_configurations failing_device)"
    by (simp_all add: example_device_def failing_device_def)
  have m1: "probe_matches example_backend example_device 2 1" by code_simp
  have p0: "probe_passes example_backend example_device 2 0" by code_simp
  have f0: "probe_fails failing_backend failing_device 1" by code_simp
  have fp: "probe_passes failing_backend failing_device 3 0" by code_simp
  have fpass: "\<forall>l. l < (1::nat) \<longrightarrow> probe_passes failing_backend failing_device 3 l"
    using fp by simp
  have n0: "\<not> probe_matches example_backend example_device 3 0" by code_simp
  have n1: "\<not> probe_matches example_backend example_device 3 1" by code_simp
  have pass: "\<forall>l. l < (1::nat) \<longrightarrow> probe_passes example_backend example_device 2 l"
    using p0 by simp
  have none: "\<forall>l. l < unat (num_configurations example_device) \<longrightarrow>
      \<not> probe_matches example_backend example_device 3 l"
  proof (intro allI impI)
    fix l assume "l < unat (num_configurations example_device)"
    then have "l = 0 \<or> l = 1" by (auto simp: example_device_def)
    with n0 n1 show "\<not> probe_matches example_backend example_device 3 l" by auto
  qed
  have v: "map_option bConfigurationValue
     (fst (libusb_get_config_descriptor libusb_1_0 example_backend (\<lambda>_. True) 0
        zero_config example_device 1)) = Some 2"
    by code_simp
  from config_descriptor_by_value[where i=1 and dev=example_device and B=example_backend
      and v=2 and K=libusb_1_0 and al="\<lambda>_. True" and k=0 and config=zero_config
      and j=1 and dev'=failing_device and B'=failing_backend and w=3 and v'=3]
    n m1 pass f0 fpass none
  have "libusb_get_config_descriptor_by_value libusb_1_0 example_backend (\<lambda>_. True) 0 zero_config
     example_device 2 =
   libusb_get_config_descriptor libusb_1_0 example_backend (\<lambda>_. True) 0 zero_config
     example_device 1 \<and>
   libusb_get_config_descriptor_by_value libusb_1_0 failing_backend (\<lambda>_. True) 0 zero_config
     failing_device 3 = (None, False, 0) \<and>
   fst (libusb_get_config_descriptor_by_value libusb_1_0 example_backend (\<lambda>_. True) 0 zero_config
     example_device 3) = None"
    by simp
  with n m1 p0 f0 fp n0 n1 v show ?thesis by simp
qed

text \<open>
  The claim as worded, that the first matching index decides, fails when an earlier probe
  fails: behind \<open>failing_backend\<close> index 2 is the first (and only) index whose probe succeeds
  with the value 3, and the fetch by index returns its descriptor; but the lookup of the
  value 3 returns \<^verbatim>\<open>NULL\<close>, because the probe of index 1 failed.
\<close>

theorem config_descriptor_by_value_counterexample:
  "\<not> probe_matches failing_backend failing_device 3 0 \<and>
   probe_fails failing_backend failing_device 1 \<and>
   \<not> probe_matches failing_backend failing_device 3 1 \<and>
   probe_matches failing_backend failing_device 3 2 \<and>
   map_option bConfigurationValue
     (fst (libusb_get_config_descriptor libusb_1_0 failing_backend (\<lambda>_. True) 0 zero_config
        failing_device 2)) = Some 3 \<and>
   fst (libusb_get_config_descriptor_by_value libusb_1_0 failing_backend (\<lambda>_. True) 0
        zero_config failing_device 3) = None"
  by code_simp

section \<open>Properties of the tree decoders\<close>


subsection \<open>Unfolding the decoders\<close>

lemma usbi_parse_descriptor_config:
  "usbi_parse_descriptor K m buffer ''bbwbbbbb'' =
     ([(0, U8 (m buffer)), (1, U8 (m (buffer + 1))),
       (2, U16 (le16 (m (buffer + 2)) (m (buffer + 3)))),
       (4, U8 (m (buffer + 4))), (5, U8 (m (buffer + 5))), (6, U8 (m (buffer + 6))),
       (7, U8 (m (buffer + 7))), (8, U8 (m (buffer + 8)))], 9)"
  by (simp add: usbi_parse_descriptor_def) (simp_all add: eval_nat_numeral)

text \<open>The configuration structure after line 338: the header fields of \<open>config\<close> overwritten.\<close>

definition config_header_at ::
  "mem \<Rightarrow> nat \<Rightarrow> libusb_config_descriptor \<Rightarrow> libusb_config_descriptor" where
  "config_header_at m buffer config =
     config\<lparr>libusb_config_descriptor.bLength := m buffer,
            libusb_config_descriptor.bDescriptorType := m (buffer + 1),
            wTotalLength := le16 (m (buffer + 2)) (m (buffer + 3)),
            bNumInterfaces := m (buffer + 4), bConfigurationValue := m (buffer + 5),
            iConfiguration := m (buffer + 6),
            libusb_config_descriptor.bmAttributes := m (buffer + 7),
            MaxPower := m (buffer + 8)\<rparr>"

lemma store_config_eq:
  "fold put_config (fst (usbi_parse_descriptor K m buffer ''bbwbbbbb'')) config =
     config_header_at m buffer config"
  by (simp add: usbi_parse_descriptor_config put_config_def config_header_at_def)

lemma parse_configuration_unfold:
  "parse_configuration K al k config m buffer =
     (if unat (m (buffer + 4)) > USB_MAXINTERFACES K
        then (LIBUSB_ERROR_IO K, config_header_at m buffer config, k)
      else if \<not> al k
        then (LIBUSB_ERROR_NO_MEM K, (config_header_at m buffer config)\<lparr>interface := Null\<rparr>, Suc k)
      else
        parse_configuration_interfaces K al m (unat (m (buffer + 4))) 0
          ((config_header_at m buffer config)
             \<lparr>interface := Ptr (replicate (unat (m (buffer + 4))) zero_interface),
              libusb_config_descriptor.extra := Null,
              libusb_config_descriptor.extra_length := 0\<rparr>)
          (replicate (unat (m (buffer + 4))) zero_interface)
          (buffer + unat (m buffer))
          (uint (le16 (m (buffer + 2)) (m (buffer + 3))) - uint (m buffer))
          (Suc k))"
proof -
  have f: "bNumInterfaces (config_header_at m buffer config) = m (buffer + 4)"
    "libusb_config_descriptor.bLength (config_header_at m buffer config) = m buffer"
    "wTotalLength (config_header_at m buffer config) = le16 (m (buffer + 2)) (m (buffer + 3))"
    by (simp_all add: config_header_at_def)
  show ?thesis
    unfolding parse_configuration_def store_config_eq Let_def f by simp
qed



lemma header_fields [simp]:
  "libusb_interface_descriptor.bLength (interface_header_at m buffer) = m buffer"
  "bNumEndpoints (interface_header_at m buffer) = m (buffer + 4)"
  "endpoint (interface_header_at m buffer) = Null"
  "libusb_interface_descriptor.extra (interface_header_at m buffer) = Null"
  "libusb_interface_descriptor.extra_length (interface_header_at m buffer) = 0"
  by (simp_all add: interface_header_at_def)


text \<open>Memory holds the bytes \<open>bs\<close> from address \<open>p\<close> on.\<close>


definition holds :: "mem \<Rightarrow> nat \<Rightarrow> u8 list \<Rightarrow> bool" where
  "holds m p bs = (bytes m p (p + length bs) = bs)"

text \<open>A well-formed class- or vendor-specific descriptor: its first byte is its length, at
  least 2, and its type is none of the four that end a scan.\<close>

definition unknown_descriptor :: "u8 list \<Rightarrow> bool" where
  "unknown_descriptor d =
     (2 \<le> length d \<and> length d \<le> 255 \<and> d ! 0 = word_of_nat (length d) \<and>
      \<not> proper_descriptor (d ! 1))"

lemma holds_nth: "holds m p bs \<Longrightarrow> i < length bs \<Longrightarrow> m (p + i) = bs ! i"
  unfolding holds_def bytes_def
  by (metis add_diff_cancel_left' length_upt nth_map nth_upt nat_add_left_cancel_less)

lemma holds_append:
  "holds m p (xs @ ys) = (holds m p xs \<and> holds m (p + length xs) ys)"
proof -
  have "[p..<p + (length xs + length ys)] = [p..<p + length xs] @ [p + length xs..<p + length xs + length ys]"
    by (metis add.assoc le_add1 upt_add_eq_append)
  then show ?thesis
    by (auto simp: holds_def bytes_def)
qed

lemma holds_Nil [simp]: "holds m p []"
  by (simp add: holds_def bytes_def)

lemma unknown_descriptor_head:
  assumes "unknown_descriptor d" and "holds m p d"
  shows "unat (m p) = length d" and "uint (m p) = int (length d)"
    and "\<not> proper_descriptor (m (p + 1))"
proof -
  from assms have l: "2 \<le> length d" "length d \<le> 255" and h: "d ! 0 = word_of_nat (length d)"
    and np: "\<not> proper_descriptor (d ! 1)"
    by (simp_all add: unknown_descriptor_def)
  from l have l0: "0 < length d" and l1: "1 < length d" by auto
  from holds_nth[OF assms(2) l0] have m0: "m p = d ! 0" by simp
  from holds_nth[OF assms(2) l1] have m1: "m (p + 1) = d ! 1" by simp
  from l have "unat (word_of_nat (length d) :: u8) = length d"
    by (intro of_nat_inverse) simp_all
  with m0 h show u: "unat (m p) = length d" by simp
  have "uint (m p) = int (unat (m p))" by (rule uint_nat)
  with u show "uint (m p) = int (length d)" by presburger
  from m1 np show "\<not> proper_descriptor (m (p + 1))" by simp
qed

lemma scan_run:
  "list_all unknown_descriptor ds \<Longrightarrow> holds m p (concat ds) \<Longrightarrow>
   int (length (concat ds)) \<le> s \<Longrightarrow>
     scan chk m p s = scan chk m (p + length (concat ds)) (s - int (length (concat ds)))"
proof (induction ds arbitrary: p s)
  case Nil
  then show ?case by simp
next
  case (Cons d ds)
  from Cons.prems have d: "unknown_descriptor d" and ds: "list_all unknown_descriptor ds"
    and hd: "holds m p d" and hds: "holds m (p + length d) (concat ds)"
    by (simp_all add: holds_append)
  note h = unknown_descriptor_head[OF d hd]
  from d have l: "2 \<le> length d" by (simp add: unknown_descriptor_def)
  from Cons.prems(3) have s: "int (length d) + int (length (concat ds)) \<le> s" by simp
  from s l h have "scan chk m p s = scan chk m (p + length d) (s - int (length d))"
    by (subst scan.simps) simp
  also have "\<dots> = scan chk m (p + length d + length (concat ds))
      (s - int (length d) - int (length (concat ds)))"
    using Cons.IH[OF ds hds] s by simp
  finally show ?case by (simp add: algebra_simps)
qed

lemma scan_bad:
  "2 \<le> s \<Longrightarrow> uint (m p) < 2 \<or> (chk \<and> s < uint (m p)) \<Longrightarrow> scan chk m p s = None"
  by (subst scan.simps) auto

lemma scan_stop:
  "s < 2 \<or> (2 \<le> uint (m p) \<and> (chk \<longrightarrow> uint (m p) \<le> s) \<and> proper_descriptor (m (p + 1))) \<Longrightarrow>
     scan chk m p s = Some (p, s)"
  by (subst scan.simps) auto

lemma parse_configuration_skip_scan:
  "parse_configuration_skip K m buffer sz = scan True m buffer sz"
proof (induction True m buffer sz rule: scan.induct)
  case (1 m p s)
  show ?case
  proof (cases "2 \<le> s \<and> \<not> (uint (m p) > s \<or> uint (m p) < 2) \<and> \<not> proper_descriptor (m (p + 1))")
    case True
    then show ?thesis
      using "1.hyps"
      by (subst parse_configuration_skip.simps, subst scan.simps)
         (simp add: read_header_eq DESC_HEADER_LENGTH_def)
  next
    case False
    then show ?thesis
      by (subst parse_configuration_skip.simps, subst scan.simps)
         (auto simp: read_header_eq DESC_HEADER_LENGTH_def)
  qed
qed


lemma usbi_parse_descriptor_endpoint_audio:
  "usbi_parse_descriptor K m buffer ''bbbbwbbb'' =
     ([(0, U8 (m buffer)), (1, U8 (m (buffer + 1))), (2, U8 (m (buffer + 2))),
       (3, U8 (m (buffer + 3))), (4, U16 (le16 (m (buffer + 4)) (m (buffer + 5)))),
       (6, U8 (m (buffer + 6))), (7, U8 (m (buffer + 7))), (8, U8 (m (buffer + 8)))], 9)"
  by (simp add: usbi_parse_descriptor_def) (simp_all add: eval_nat_numeral)

lemma usbi_parse_descriptor_endpoint:
  "usbi_parse_descriptor K m buffer ''bbbbwb'' =
     ([(0, U8 (m buffer)), (1, U8 (m (buffer + 1))), (2, U8 (m (buffer + 2))),
       (3, U8 (m (buffer + 3))), (4, U16 (le16 (m (buffer + 4)) (m (buffer + 5)))),
       (6, U8 (m (buffer + 6)))], 7)"
  by (simp add: usbi_parse_descriptor_def) (simp_all add: eval_nat_numeral)

text \<open>The endpoint structure after lines 105-108: the header fields of \<open>ep\<close> overwritten, as far
  as the declared length allows.\<close>

definition endpoint_header_at ::
  "mem \<Rightarrow> nat \<Rightarrow> libusb_endpoint_descriptor \<Rightarrow> libusb_endpoint_descriptor" where
  "endpoint_header_at m buffer ep =
     (if 9 \<le> uint (m buffer) then
        ep\<lparr>libusb_endpoint_descriptor.bLength := m buffer,
           libusb_endpoint_descriptor.bDescriptorType := m (buffer + 1),
           bEndpointAddress := m (buffer + 2),
           libusb_endpoint_descriptor.bmAttributes := m (buffer + 3),
           wMaxPacketSize := le16 (m (buffer + 4)) (m (buffer + 5)),
           bInterval := m (buffer + 6), bRefresh := m (buffer + 7),
           bSynchAddress := m (buffer + 8)\<rparr>
      else if 7 \<le> uint (m buffer) then
        ep\<lparr>libusb_endpoint_descriptor.bLength := m buffer,
           libusb_endpoint_descriptor.bDescriptorType := m (buffer + 1),
           bEndpointAddress := m (buffer + 2),
           libusb_endpoint_descriptor.bmAttributes := m (buffer + 3),
           wMaxPacketSize := le16 (m (buffer + 4)) (m (buffer + 5)),
           bInterval := m (buffer + 6)\<rparr>
      else ep)"

lemma parse_endpoint_unfold:
  "parse_endpoint K al k ep m buffer sz =
     (if uint (m buffer) > sz then (- 1, ep, k)
      else if m (buffer + 1) \<noteq> LIBUSB_DT_ENDPOINT then (0, ep, k)
      else case scan False m (buffer + unat (m buffer)) (sz - uint (m buffer)) of
         None \<Rightarrow> (- 1, endpoint_header_at m buffer ep, k)
       | Some (b1, s1) \<Rightarrow>
           if b1 = buffer + unat (m buffer) then
             (sz - s1, (endpoint_header_at m buffer ep)
                \<lparr>libusb_endpoint_descriptor.extra := Null,
                 libusb_endpoint_descriptor.extra_length := 0\<rparr>, k)
           else if \<not> al k then
             (LIBUSB_ERROR_NO_MEM K, (endpoint_header_at m buffer ep)
                \<lparr>libusb_endpoint_descriptor.extra := Null,
                 libusb_endpoint_descriptor.extra_length := 0\<rparr>, Suc k)
           else
             (sz - s1, (endpoint_header_at m buffer ep)
                \<lparr>libusb_endpoint_descriptor.extra := Ptr (bytes m (buffer + unat (m buffer)) b1),
                 libusb_endpoint_descriptor.extra_length := int b1 - int (buffer + unat (m buffer))\<rparr>,
              Suc k))"
proof -
  have e: "\<And>a s::nat. (int a - int s = 0) = (a = s)" by auto
  have h: "(if uint (m buffer) \<ge> ENDPOINT_AUDIO_DESC_LENGTH
              then fold put_endpoint (fst (usbi_parse_descriptor K m buffer ''bbbbwbbb'')) ep
            else if uint (m buffer) \<ge> ENDPOINT_DESC_LENGTH
              then fold put_endpoint (fst (usbi_parse_descriptor K m buffer ''bbbbwb'')) ep
            else ep) = endpoint_header_at m buffer ep"
    by (simp add: usbi_parse_descriptor_endpoint usbi_parse_descriptor_endpoint_audio
        put_endpoint_def endpoint_header_at_def ENDPOINT_AUDIO_DESC_LENGTH_def
        ENDPOINT_DESC_LENGTH_def)
  have f: "usb_descriptor_header.bLength (read_header K m buffer) = m buffer"
    "usb_descriptor_header.bDescriptorType (read_header K m buffer) = m (buffer + 1)"
    by (simp_all add: read_header_eq)
  show ?thesis
    unfolding parse_endpoint_def Let_def f h parse_endpoint_skip_scan e
    by (simp split: option.splits)
qed


text \<open>Lines 405-410 for the slot \<open>i\<close>: the interface decoder, then the rest of the loop.\<close>

definition parse_configuration_interface_at ::
  "libusbi \<Rightarrow> alloc \<Rightarrow> mem \<Rightarrow> nat \<Rightarrow> nat \<Rightarrow> libusb_config_descriptor \<Rightarrow>
     libusb_interface list \<Rightarrow> nat \<Rightarrow> int \<Rightarrow> nat \<Rightarrow> int \<times> libusb_config_descriptor \<times> nat" where
  "parse_configuration_interface_at K al m n i config ifs buffer sz k =
     (case parse_interface K al k (ifs ! i) m buffer sz of
        (r, ifc, k2) \<Rightarrow>
          if r < 0 then (r, clear_configuration (config\<lparr>interface := Ptr (ifs[i := ifc])\<rparr>), k2)
          else parse_configuration_interfaces K al m n (i + 1)
                 (config\<lparr>interface := Ptr (ifs[i := ifc])\<rparr>) (ifs[i := ifc])
                 (buffer + nat r) (sz - r) k2)"

lemma parse_configuration_interfaces_unfold:
  "parse_configuration_interfaces K al m n i config ifs buffer sz k =
     (if i < n then
        (case scan True m buffer sz of
           None \<Rightarrow> (LIBUSB_ERROR_IO K, clear_configuration config, k)
         | Some (buffer1, sz1) \<Rightarrow>
             if buffer1 \<noteq> buffer \<and> libusb_config_descriptor.extra_length config = 0 then
               (if \<not> al k
                  then (LIBUSB_ERROR_NO_MEM K,
                        clear_configuration (config\<lparr>libusb_config_descriptor.extra := Null\<rparr>),
                        Suc k)
                else parse_configuration_interface_at K al m n i
                       (config\<lparr>libusb_config_descriptor.extra := Ptr (bytes m buffer buffer1),
                               libusb_config_descriptor.extra_length := int buffer1 - int buffer\<rparr>)
                       ifs buffer1 sz1 (Suc k))
             else parse_configuration_interface_at K al m n i config ifs buffer1 sz1 k)
      else (sz, config, k))"
proof -
  have e: "\<And>a s::nat. (int a - int s \<noteq> 0) = (a \<noteq> s)" by auto
  show ?thesis
    by (subst parse_configuration_interfaces.simps)
       (auto simp: parse_configuration_skip_scan parse_configuration_interface_at_def Let_def e
          split: option.splits)
qed


subsection \<open>What a teardown leaves\<close>

text \<open>A pointer through which a block can be reached: neither \<^verbatim>\<open>NULL\<close> nor dangling.\<close>

definition live :: "'a ptr \<Rightarrow> bool" where
  "live p = (case p of Ptr x \<Rightarrow> True | _ \<Rightarrow> False)"

lemma live_simps [simp]: "\<not> live Null" "live (Ptr x)" "\<not> live (Released n x)"
  by (simp_all add: live_def)

lemma free_not_live [simp]: "\<not> live (free p)"
  by (cases p) (simp_all add: free_def)

lemma clear_interface_not_live [simp]: "\<not> live (altsetting (clear_interface ifc))"
  by (cases "altsetting ifc") (simp_all add: clear_interface_def Let_def)

lemma clear_configuration_not_live [simp]:
  "\<not> live (interface (clear_configuration c))"
  "\<not> live (libusb_config_descriptor.extra (clear_configuration c))"
  by (cases "interface c"; cases "libusb_config_descriptor.extra c";
      simp add: clear_configuration_def Let_def)+

subsection \<open>The architectural limits\<close>

lemma parse_altsetting_endpoints_limit:
  "USB_MAXENDPOINTS K < unat (bNumEndpoints ifp) \<Longrightarrow>
     parse_altsetting_endpoints K al m ifc num ifp buffer sz parsed k =
       Inl (if 2 \<le> sz \<and> (m (buffer + 1) = LIBUSB_DT_CONFIG \<or> m (buffer + 1) = LIBUSB_DT_DEVICE)
            then (parsed, with_altsetting ifc num ifp, k)
            else (LIBUSB_ERROR_IO K, clear_interface (with_altsetting ifc num ifp), k))"
  by (cases "2 \<le> sz \<and> (m (buffer + 1) = LIBUSB_DT_CONFIG \<or> m (buffer + 1) = LIBUSB_DT_DEVICE)")
     (auto simp: parse_altsetting_endpoints_def read_header_eq DESC_HEADER_LENGTH_def)

lemma parse_altsetting_header_Inl:
  "parse_altsetting_header K al m ifc buffer sz parsed k = Inl (r, ifc', k') \<Longrightarrow>
     (r = LIBUSB_ERROR_IO K \<or> r = LIBUSB_ERROR_NO_MEM K) \<and> \<not> live (altsetting ifc')"
  by (auto simp: parse_altsetting_header_unfold split: if_splits option.splits)

lemma parse_altsetting_header_Inr:
  "parse_altsetting_header K al m ifc buffer sz parsed k = Inr (ifp, b, s, p, k') \<Longrightarrow>
     endpoint ifp = Null \<and> bNumEndpoints ifp = m (buffer + 4) \<and>
     libusb_interface_descriptor.bLength ifp = m buffer"
  by (auto simp: parse_altsetting_header_unfold split: if_splits option.splits)

text \<open>
  Claim C5, as the code has it. An interface count above \<^verbatim>\<open>USB_MAXINTERFACES\<close> makes
  \<^verbatim>\<open>parse_configuration\<close> return \<^verbatim>\<open>LIBUSB_ERROR_IO\<close> with no allocation request made (the
  counter \<open>k\<close> comes back unchanged) and the interface pointer untouched.

  For the endpoint count, take any pass of the loop of \<^verbatim>\<open>parse_interface\<close>: any state
  \<open>(ifc, buffer', sz, parsed, k0)\<close> at line 199, \<open>nat (num_altsetting ifc)\<close> settings having
  been decoded before (the loop is tail recursive, so what this pass returns is what
  \<^verbatim>\<open>parse_interface\<close> returns). If the setting that starts at \<open>buffer'\<close> declares more than
  \<^verbatim>\<open>USB_MAXENDPOINTS\<close> endpoints, the function ends in this pass. Either lines 199-256 fail
  (an allocation fails or the scan meets a length below 2): the result is
  \<^verbatim>\<open>LIBUSB_ERROR_NO_MEM\<close> or \<^verbatim>\<open>LIBUSB_ERROR_IO\<close> and the interface is torn down. Or they
  reach line 258 with the setting \<open>ifp\<close>, the cursor \<open>(b, s)\<close>, \<open>p\<close> bytes parsed and the
  allocation counter \<open>k1\<close>; then, if at least two bytes remain and the descriptor at the
  cursor is a configuration or device descriptor, line 263 returns \<open>p\<close>, the bytes parsed so
  far, with the setting in place, and this is not an error (\<open>count_limits_counterexample\<close>);
  otherwise line 265 yields \<^verbatim>\<open>LIBUSB_ERROR_IO\<close> and the interface is torn down. In both cases
  the counter is still \<open>k1\<close> and the endpoint pointer of the setting is \<^verbatim>\<open>NULL\<close>: no endpoint
  slots were requested.
\<close>

theorem count_limits:
  "(USB_MAXINTERFACES K < unat (m (buffer + 4)) \<longrightarrow>
      parse_configuration K al k config m buffer =
        (LIBUSB_ERROR_IO K, config_header_at m buffer config, k)) \<and>
   (USB_MAXENDPOINTS K < unat (m' (buffer' + 4)) \<and> INTERFACE_DESC_LENGTH \<le> sz \<longrightarrow>
      (case parse_altsetting_header K al' m' ifc buffer' sz parsed k0 of
         Inl (r, ifc', k') \<Rightarrow>
           parse_interface_loop K al' m' ifc buffer' sz parsed k0 = (r, ifc', k') \<and>
           (r = LIBUSB_ERROR_IO K \<or> r = LIBUSB_ERROR_NO_MEM K) \<and> \<not> live (altsetting ifc')
       | Inr (ifp, b, s, p, k1) \<Rightarrow>
           bNumEndpoints ifp = m' (buffer' + 4) \<and> endpoint ifp = Null \<and>
           parse_interface_loop K al' m' ifc buffer' sz parsed k0 =
             (if 2 \<le> s \<and> (m' (b + 1) = LIBUSB_DT_CONFIG \<or> m' (b + 1) = LIBUSB_DT_DEVICE)
              then (p, with_altsetting ifc (nat (num_altsetting ifc)) ifp, k1)
              else (LIBUSB_ERROR_IO K,
                    clear_interface (with_altsetting ifc (nat (num_altsetting ifc)) ifp), k1))))"
proof (intro conjI impI)
  assume "USB_MAXINTERFACES K < unat (m (buffer + 4))"
  then show "parse_configuration K al k config m buffer =
        (LIBUSB_ERROR_IO K, config_header_at m buffer config, k)"
    by (simp add: parse_configuration_unfold)
next
  assume a: "USB_MAXENDPOINTS K < unat (m' (buffer' + 4)) \<and> INTERFACE_DESC_LENGTH \<le> sz"
  show "case parse_altsetting_header K al' m' ifc buffer' sz parsed k0 of
         Inl (r, ifc', k') \<Rightarrow>
           parse_interface_loop K al' m' ifc buffer' sz parsed k0 = (r, ifc', k') \<and>
           (r = LIBUSB_ERROR_IO K \<or> r = LIBUSB_ERROR_NO_MEM K) \<and> \<not> live (altsetting ifc')
       | Inr (ifp, b, s, p, k1) \<Rightarrow>
           bNumEndpoints ifp = m' (buffer' + 4) \<and> endpoint ifp = Null \<and>
           parse_interface_loop K al' m' ifc buffer' sz parsed k0 =
             (if 2 \<le> s \<and> (m' (b + 1) = LIBUSB_DT_CONFIG \<or> m' (b + 1) = LIBUSB_DT_DEVICE)
              then (p, with_altsetting ifc (nat (num_altsetting ifc)) ifp, k1)
              else (LIBUSB_ERROR_IO K,
                    clear_interface (with_altsetting ifc (nat (num_altsetting ifc)) ifp), k1))"
  proof (cases "parse_altsetting_header K al' m' ifc buffer' sz parsed k0")
    case (Inl res)
    obtain r ifc' k' where res: "res = (r, ifc', k')" by (cases res)
    from Inl a have "parse_interface_loop K al' m' ifc buffer' sz parsed k0 = res"
      by (subst parse_interface_loop.simps) (simp add: parse_altsetting_def)
    with Inl res parse_altsetting_header_Inl[of K al' m' ifc buffer' sz parsed k0 r ifc' k']
    show ?thesis by simp
  next
    case (Inr st)
    obtain ifp b s p k1 where st: "st = (ifp, b, s, p, k1)" by (cases st)
    note h = parse_altsetting_header_Inr[OF Inr[unfolded st]]
    with a have lim: "USB_MAXENDPOINTS K < unat (bNumEndpoints ifp)" by simp
    from Inr st a have "parse_interface_loop K al' m' ifc buffer' sz parsed k0 =
        (if 2 \<le> s \<and> (m' (b + 1) = LIBUSB_DT_CONFIG \<or> m' (b + 1) = LIBUSB_DT_DEVICE)
              then (p, with_altsetting ifc (nat (num_altsetting ifc)) ifp, k1)
              else (LIBUSB_ERROR_IO K,
                    clear_interface (with_altsetting ifc (nat (num_altsetting ifc)) ifp), k1))"
      by (subst parse_interface_loop.simps)
         (simp add: parse_altsetting_def parse_altsetting_endpoints_limit[OF lim])
    with Inr st h show ?thesis by simp
  qed
qed

text \<open>An interface with two alternate settings, the second of which declares 33 endpoints;
  the state of the loop at the start of its second pass.\<close>

definition two_settings :: "u8 list" where
  "two_settings =
     [9, 4, 0, 0, 0, 0xFF, 0, 0, 0,   9, 4, 0, 1, 33, 0xFF, 0, 0, 0,
      7, 5, 0x81, 2, 0x40, 0, 0]"

definition first_setting_done :: libusb_interface where
  "first_setting_done =
     with_altsetting (zero_interface\<lparr>num_altsetting := 0\<rparr>) 0
       (interface_header_at (mem_of two_settings) 0)"

theorem count_limits_witness:
  "USB_MAXINTERFACES libusb_1_0 < unat (mem_of [9, 2, 9, 0, 33, 1, 0, 0x80, 0x32] (0 + 4)) \<and>
   parse_configuration libusb_1_0 (\<lambda>_. True) 0 zero_config
       (mem_of [9, 2, 9, 0, 33, 1, 0, 0x80, 0x32]) 0 =
     (- 1, config_header_at (mem_of [9, 2, 9, 0, 33, 1, 0, 0x80, 0x32]) 0 zero_config, 0) \<and>
   USB_MAXENDPOINTS libusb_1_0 < unat (mem_of two_settings (9 + 4)) \<and>
   INTERFACE_DESC_LENGTH \<le> 16 \<and>
   parse_interface libusb_1_0 (\<lambda>_. True) 0 zero_interface (mem_of two_settings) 0 25 =
     parse_interface_loop libusb_1_0 (\<lambda>_. True) (mem_of two_settings) first_setting_done
       9 16 9 1 \<and>
   parse_interface_loop libusb_1_0 (\<lambda>_. True) (mem_of two_settings) first_setting_done 9 16 9 1 =
     (- 1, clear_interface (with_altsetting first_setting_done 1
             (interface_header_at (mem_of two_settings) 9)), 2)"
proof -
  let ?m = "mem_of [9, 2, 9, 0, 33, 1, 0, 0x80, 0x32]"
  let ?m' = "mem_of two_settings"
  have h1: "USB_MAXINTERFACES libusb_1_0 < unat (?m (0 + 4))"
    by (simp add: libusb_1_0_def mem_of_def)
  have h2: "USB_MAXENDPOINTS libusb_1_0 < unat (?m' (9 + 4))"
    by (simp add: libusb_1_0_def mem_of_def two_settings_def)
  have h3: "INTERFACE_DESC_LENGTH \<le> 16" by (simp add: INTERFACE_DESC_LENGTH_def)
  have e: "LIBUSB_ERROR_IO libusb_1_0 = - 1" by (simp add: libusb_1_0_def)
  have n: "nat (num_altsetting first_setting_done) = 1"
    by (simp add: first_setting_done_def with_altsetting_def)
  have hd: "parse_altsetting_header libusb_1_0 (\<lambda>_. True) ?m' first_setting_done 9 16 9 1 =
      Inr (interface_header_at ?m' 9, 18, 7, 18, 2)"
    by code_simp
  have ty: "\<not> (?m' (18 + 1) = LIBUSB_DT_CONFIG \<or> ?m' (18 + 1) = LIBUSB_DT_DEVICE)"
    by code_simp
  have p: "parse_interface libusb_1_0 (\<lambda>_. True) 0 zero_interface ?m' 0 25 =
     parse_interface_loop libusb_1_0 (\<lambda>_. True) ?m' first_setting_done 9 16 9 1"
    by code_simp
  note t = count_limits[where K=libusb_1_0 and m="?m" and buffer=0 and al="\<lambda>_. True" and k=0
      and config=zero_config and m'="?m'" and buffer'=9 and sz=16 and al'="\<lambda>_. True"
      and ifc=first_setting_done and parsed=9 and ?k0.0=1]
  from t h1 e have c1: "parse_configuration libusb_1_0 (\<lambda>_. True) 0 zero_config ?m 0 =
     (- 1, config_header_at ?m 0 zero_config, 0)"
    by simp
  from t h2 h3 have "parse_interface_loop libusb_1_0 (\<lambda>_. True) ?m' first_setting_done 9 16 9 1 =
     (- 1, clear_interface (with_altsetting first_setting_done 1 (interface_header_at ?m' 9)), 2)"
    unfolding hd using ty by (simp add: e n)
  with h1 h2 h3 c1 p show ?thesis by simp
qed

theorem count_limits_counterexample:
  "errors_negative libusb_1_0 \<and>
   USB_MAXENDPOINTS libusb_1_0 < unat (33 :: u8) \<and>
   fst (parse_interface libusb_1_0 (\<lambda>_. True) 0 zero_interface
     (mem_of [9, 4, 0, 0, 33, 0xFF, 0, 0, 0, 9, 2, 18, 0, 1, 1, 0, 0x80, 0x32]) 0 18) = 9 \<and>
   map bNumEndpoints (held (altsetting (fst (snd (parse_interface libusb_1_0 (\<lambda>_. True) 0
     zero_interface
     (mem_of [9, 4, 0, 0, 33, 0xFF, 0, 0, 0, 9, 2, 18, 0, 1, 1, 0, 0x80, 0x32]) 0 18))))) = [33] \<and>
   live (altsetting (fst (snd (parse_interface libusb_1_0 (\<lambda>_. True) 0 zero_interface
     (mem_of [9, 4, 0, 0, 33, 0xFF, 0, 0, 0, 9, 2, 18, 0, 1, 1, 0, 0x80, 0x32]) 0 18)))) \<and>
   fst (parse_configuration libusb_1_0 (\<lambda>_. True) 0 zero_config
     (mem_of [9, 2, 27, 0, 1, 1, 0, 0x80, 0x32, 9, 4, 0, 0, 33, 0xFF, 0, 0, 0,
              9, 2, 18, 0, 1, 1, 0, 0x80, 0x32]) 0) = 9"
  by code_simp

subsection \<open>Extra blobs and their recorded lengths\<close>

text \<open>
  A blob pointer and its recorded length agree: \<^verbatim>\<open>NULL\<close> goes with length 0, a live blob with
  its own, nonzero length. A structure is consistent when this holds for its own blob and for
  every structure reachable from it, each pointer on the way being \<^verbatim>\<open>NULL\<close> or live.
\<close>

definition blob_ok :: "u8 list ptr \<Rightarrow> int \<Rightarrow> bool" where
  "blob_ok blob len =
     (case blob of Null \<Rightarrow> len = 0 | Ptr bs \<Rightarrow> len \<noteq> 0 \<and> len = int (length bs)
      | Released n bs \<Rightarrow> False)"

definition endpoint_extra_ok :: "libusb_endpoint_descriptor \<Rightarrow> bool" where
  "endpoint_extra_ok e =
     blob_ok (libusb_endpoint_descriptor.extra e) (libusb_endpoint_descriptor.extra_length e)"

definition altsetting_extra_ok :: "libusb_interface_descriptor \<Rightarrow> bool" where
  "altsetting_extra_ok d =
     (blob_ok (libusb_interface_descriptor.extra d) (libusb_interface_descriptor.extra_length d) \<and>
      (case endpoint d of Null \<Rightarrow> True | Ptr eps \<Rightarrow> list_all endpoint_extra_ok eps
       | Released n eps \<Rightarrow> False))"





lemma endpoint_header_at_extra [simp]:
  "libusb_endpoint_descriptor.extra (endpoint_header_at m b ep) = libusb_endpoint_descriptor.extra ep"
  "libusb_endpoint_descriptor.extra_length (endpoint_header_at m b ep) =
     libusb_endpoint_descriptor.extra_length ep"
  by (simp_all add: endpoint_header_at_def)


lemma blob_ok_Null [simp]: "blob_ok Null 0"
  by (simp add: blob_ok_def)







lemma interface_header_at_extra_ok [simp]: "altsetting_extra_ok (interface_header_at m buffer)"
  by (simp add: altsetting_extra_ok_def)







lemma config_header_at_extra [simp]:
  "libusb_config_descriptor.extra (config_header_at m b c) = libusb_config_descriptor.extra c"
  "libusb_config_descriptor.extra_length (config_header_at m b c) =
     libusb_config_descriptor.extra_length c"
  "interface (config_header_at m b c) = interface c"
  by (simp_all add: config_header_at_def)







definition failing_stream :: "u8 list" where
  "failing_stream =
     [9, 2, 23, 0, 1, 1, 0, 0x80, 0x32,   3, 0x0B, 7,
      9, 4, 0, 0, 0, 0xFF, 0, 0, 0,   1, 0x24]"

text \<open>How many times the block behind a pointer has been passed to \<^verbatim>\<open>free\<close>.\<close>

definition releases :: "'a ptr \<Rightarrow> nat" where
  "releases p = (case p of Released n x \<Rightarrow> n | _ \<Rightarrow> 0)"



text \<open>
  The teardown runs twice on an interface that \<^verbatim>\<open>parse_interface\<close> failed on: once at the
  label \<^verbatim>\<open>err\<close> of \<^verbatim>\<open>parse_interface\<close>, and again when \<^verbatim>\<open>clear_configuration\<close> walks the array
  of interfaces at the label \<^verbatim>\<open>err\<close> of \<^verbatim>\<open>parse_configuration\<close>. In \<open>failing_stream\<close> the array
  of settings of interface 0 is released twice.
\<close>

lemma teardown_runs_twice:
  "releases (altsetting (fst (snd (parse_interface libusb_1_0 (\<lambda>_. True) 0 zero_interface
      (mem_of failing_stream) 12 11)))) = 1 \<and>
   releases (interface (fst (snd (parse_configuration libusb_1_0 (\<lambda>_. True) 0 zero_config
      (mem_of failing_stream) 0)))) = 1 \<and>
   map (\<lambda>ifc. releases (altsetting ifc))
     (held (interface (fst (snd (parse_configuration libusb_1_0 (\<lambda>_. True) 0 zero_config
        (mem_of failing_stream) 0))))) = [2] \<and>
   releases (libusb_config_descriptor.extra (fst (snd (parse_configuration libusb_1_0
      (\<lambda>_. True) 0 zero_config (mem_of failing_stream) 0)))) = 1"
  by code_simp

subsection \<open>Declared lengths\<close>

text \<open>
  The descriptor headers that a parse reads, in the order in which it reads them: each with
  the place where the source reads it, the address \<open>p\<close> of the descriptor and the value \<open>s\<close>
  of \<^verbatim>\<open>size\<close> at that moment, the bytes remaining. The length byte of the descriptor is
  \<open>m p\<close>. The places are: the configuration header (line 338); the header at the start of a
  pass of the loop of \<^verbatim>\<open>parse_interface\<close> (line 211) and of the endpoint loop (line 285),
  which the parse then steps over by its length; and the headers that one of the three scans
  reads (lines 118, 226 and 367), where \<open>Skipped\<close> is a descriptor of none of the four proper
  types, which the scan steps over, and \<open>Next\<close> is a descriptor of a proper type, at which the
  scan stops. The functions below follow the decoders pass by pass and collect the reads;
  they take the state of each next pass from the decoders themselves.
\<close>

datatype level = Config_header | Interface_header | Endpoint_header | Skipped | Next

type_synonym header_read = "level \<times> nat \<times> int"

function scan_reads :: "bool \<Rightarrow> mem \<Rightarrow> nat \<Rightarrow> int \<Rightarrow> header_read list" where
  "scan_reads chk m p s =
     (if 2 \<le> s then
        (if (chk \<and> uint (m p) > s) \<or> uint (m p) < 2
           then [(if proper_descriptor (m (p + 1)) then Next else Skipped, p, s)]
         else if proper_descriptor (m (p + 1)) then [(Next, p, s)]
         else (Skipped, p, s) # scan_reads chk m (p + unat (m p)) (s - uint (m p)))
      else [])"
  by pat_completeness auto
termination
  by (relation "measure (\<lambda>(chk, m, p, s). nat s)") auto

declare scan_reads.simps [simp del]














lemma scan_reads_level:
  "(lvl, p', s') \<in> set (scan_reads chk m p s) \<Longrightarrow> lvl = Skipped \<or> lvl = Next"
proof (induction chk m p s rule: scan.induct)
  case (1 chk m p s)
  show ?case
  proof (cases "2 \<le> s \<and> \<not> ((chk \<and> uint (m p) > s) \<or> uint (m p) < 2) \<and> \<not> proper_descriptor (m (p + 1))")
    case False
    with "1.prems" show ?thesis
      by (subst (asm) scan_reads.simps) (auto split: if_splits)
  next
    case True
    with "1.prems" have "(lvl, p', s') = (Skipped, p, s) \<or>
        (lvl, p', s') \<in> set (scan_reads chk m (p + unat (m p)) (s - uint (m p)))"
      by (subst (asm) scan_reads.simps) (auto split: if_splits)
    with "1.IH" True show ?thesis by auto
  qed
qed



























lemma held_simps [simp]:
  "held Null = []" "held (Ptr xs) = xs" "held (Released n xs) = xs"
  by (simp_all add: held_def)


text \<open>
  A configuration stream, as the spec describes it: a configuration header, a run of
  unrecognised descriptors, and the interfaces; an interface is its alternate settings, in
  stream order; an alternate setting is an interface header, a run of unrecognised
  descriptors, and its endpoints; an endpoint is an endpoint header and a run of unrecognised
  descriptors. Each part is the list of its bytes.
\<close>

type_synonym endpoint_stream = "u8 list \<times> u8 list list"
type_synonym altsetting_stream = "u8 list \<times> u8 list list \<times> endpoint_stream list"
type_synonym interface_stream = "altsetting_stream list"
type_synonym config_stream = "u8 list \<times> u8 list list \<times> interface_stream list"

fun enc_endpoint :: "endpoint_stream \<Rightarrow> u8 list" where
  "enc_endpoint (h, xs) = h @ concat xs"

fun enc_altsetting :: "altsetting_stream \<Rightarrow> u8 list" where
  "enc_altsetting (h, xs, eps) = h @ concat xs @ concat (map enc_endpoint eps)"

definition enc_interface :: "interface_stream \<Rightarrow> u8 list" where
  "enc_interface alts = concat (map enc_altsetting alts)"

fun enc_config :: "config_stream \<Rightarrow> u8 list" where
  "enc_config (h, xs, ifs) = h @ concat xs @ concat (map enc_interface ifs)"

text \<open>A header: its first byte is its length, its second byte its type.\<close>

definition header_of :: "u8 \<Rightarrow> nat \<Rightarrow> u8 list \<Rightarrow> bool" where
  "header_of t least h =
     (least \<le> length h \<and> length h \<le> 255 \<and> h ! 0 = word_of_nat (length h) \<and> h ! 1 = t)"

fun wf_endpoint :: "endpoint_stream \<Rightarrow> bool" where
  "wf_endpoint (h, xs) = (header_of LIBUSB_DT_ENDPOINT 2 h \<and> list_all unknown_descriptor xs)"

fun wf_altsetting :: "libusbi \<Rightarrow> altsetting_stream \<Rightarrow> bool" where
  "wf_altsetting K (h, xs, eps) =
     (header_of LIBUSB_DT_INTERFACE 9 h \<and> h ! 4 = word_of_nat (length eps) \<and>
      length eps \<le> 255 \<and> length eps \<le> USB_MAXENDPOINTS K \<and>
      list_all unknown_descriptor xs \<and> list_all wf_endpoint eps)"

text \<open>An interface has a first setting, numbered 0, and its other settings are numbered
  otherwise: that is how the stream tells a new interface from another setting.\<close>

definition wf_interface :: "libusbi \<Rightarrow> interface_stream \<Rightarrow> bool" where
  "wf_interface K alts =
     (alts \<noteq> [] \<and> list_all (wf_altsetting K) alts \<and> fst (hd alts) ! 3 = 0 \<and>
      list_all (\<lambda>a. fst a ! 3 \<noteq> 0) (tl alts))"

text \<open>A configuration has at least one interface, and its header declares their number.\<close>

fun wf_config :: "libusbi \<Rightarrow> config_stream \<Rightarrow> bool" where
  "wf_config K (h, xs, ifs) =
     (header_of LIBUSB_DT_CONFIG 9 h \<and>
      ifs \<noteq> [] \<and> h ! 4 = word_of_nat (length ifs) \<and> length ifs \<le> 255 \<and>
      length ifs \<le> USB_MAXINTERFACES K \<and>
      list_all unknown_descriptor xs \<and> list_all (wf_interface K) ifs)"

text \<open>The \<open>wTotalLength\<close> field of a configuration header declares \<open>n\<close> bytes.\<close>

definition declares_total :: "u8 list \<Rightarrow> nat \<Rightarrow> bool" where
  "declares_total h n = (n \<le> 65535 \<and> le16 (h ! 2) (h ! 3) = word_of_nat n)"

text \<open>The tree that the spec expects for a stream. An empty run leaves no blob.\<close>

definition blob :: "u8 list \<Rightarrow> u8 list ptr" where
  "blob bs = (if bs = [] then Null else Ptr bs)"

fun endpoint_tree :: "endpoint_stream \<Rightarrow> libusb_endpoint_descriptor" where
  "endpoint_tree (h, xs) =
     (endpoint_header_at (mem_of h) 0 zero_endpoint)
       \<lparr>libusb_endpoint_descriptor.extra := blob (concat xs),
        libusb_endpoint_descriptor.extra_length := int (length (concat xs))\<rparr>"

fun altsetting_tree :: "altsetting_stream \<Rightarrow> libusb_interface_descriptor" where
  "altsetting_tree (h, xs, eps) =
     (interface_header_at (mem_of h) 0)
       \<lparr>endpoint := (if eps = [] then Null else Ptr (map endpoint_tree eps)),
        libusb_interface_descriptor.extra := blob (concat xs),
        libusb_interface_descriptor.extra_length := int (length (concat xs))\<rparr>"

definition interface_tree :: "interface_stream \<Rightarrow> libusb_interface" where
  "interface_tree alts =
     \<lparr>altsetting = Ptr (map altsetting_tree alts), num_altsetting = int (length alts)\<rparr>"

fun config_tree :: "libusb_config_descriptor \<Rightarrow> config_stream \<Rightarrow> libusb_config_descriptor" where
  "config_tree c (h, xs, ifs) =
     (config_header_at (mem_of h) 0 c)
       \<lparr>interface := Ptr (map interface_tree ifs),
        libusb_config_descriptor.extra := blob (concat xs),
        libusb_config_descriptor.extra_length := int (length (concat xs))\<rparr>"

text \<open>What may follow a scan for it to stop there: fewer than two bytes, or a header of one of
  the four proper types with a length of at least 2 (that fits, where the scan checks it).\<close>

definition stops :: "u8 list \<Rightarrow> bool" where
  "stops rest =
     (length rest < 2 \<or>
      (2 \<le> uint (rest ! 0) \<and> uint (rest ! 0) \<le> int (length rest) \<and>
       proper_descriptor (rest ! 1)))"

lemma holds_bytes: "holds m p bs \<Longrightarrow> bytes m p (p + length bs) = bs"
  by (simp add: holds_def)

lemma header_of_head:
  assumes "header_of t least h" and "2 \<le> least" and "holds m p h"
  shows "unat (m p) = length h" and "uint (m p) = int (length h)" and "m (p + 1) = t"
proof -
  from assms have l: "2 \<le> length h" "length h \<le> 255" and h: "h ! 0 = word_of_nat (length h)"
    and t: "h ! 1 = t"
    by (simp_all add: header_of_def)
  from l have l0: "0 < length h" and l1: "1 < length h" by auto
  from holds_nth[OF assms(3) l0] have m0: "m p = h ! 0" by simp
  from holds_nth[OF assms(3) l1] t show "m (p + 1) = t" by simp
  from l have "unat (word_of_nat (length h) :: u8) = length h"
    by (intro of_nat_inverse) simp_all
  with m0 h show u: "unat (m p) = length h" by simp
  have "uint (m p) = int (unat (m p))" by (rule uint_nat)
  with u show "uint (m p) = int (length h)" by presburger
qed

lemma scan_stops:
  assumes "holds m p rest" and "stops rest"
  shows "scan chk m p (int (length rest)) = Some (p, int (length rest))"
proof (cases "length rest < 2")
  case True
  then show ?thesis by (intro scan_stop) simp
next
  case False
  then have l0: "0 < length rest" and l1: "1 < length rest" by auto
  from holds_nth[OF assms(1) l0] holds_nth[OF assms(1) l1]
  have "m p = rest ! 0" "m (p + 1) = rest ! 1" by simp_all
  with assms(2) False show ?thesis
    by (intro scan_stop) (simp add: stops_def)
qed

lemma scan_over_run:
  assumes "list_all unknown_descriptor ds" and "holds m p (concat ds @ rest)" and "stops rest"
  shows "scan chk m p (int (length (concat ds)) + int (length rest)) =
           Some (p + length (concat ds), int (length rest))"
proof -
  from assms(2) have h1: "holds m p (concat ds)"
    and h2: "holds m (p + length (concat ds)) rest"
    by (simp_all add: holds_append)
  have "scan chk m p (int (length (concat ds)) + int (length rest)) =
      scan chk m (p + length (concat ds)) (int (length (concat ds)) + int (length rest) -
        int (length (concat ds)))"
    using assms(1) h1 by (intro scan_run) simp_all
  also have "\<dots> = Some (p + length (concat ds), int (length rest))"
    using scan_stops[OF h2 assms(3), of chk] by simp
  finally show ?thesis .
qed


lemma mem_of_holds: "holds m p h \<Longrightarrow> i < length h \<Longrightarrow> mem_of h i = m (p + i)"
  by (simp add: mem_of_def holds_nth)

lemma endpoint_header_at_holds:
  assumes "holds m p h" and "unat (m p) = length h" and "0 < length h"
  shows "endpoint_header_at m p ep = endpoint_header_at (mem_of h) 0 ep"
proof -
  have u: "uint (m p) = int (length h)"
    using assms(2) uint_nat[of "m p"] by presburger
  from mem_of_holds[OF assms(1,3)] have m0: "mem_of h 0 = m p" by simp
  show ?thesis
  proof (cases "9 \<le> length h")
    case True
    then have "\<And>i. i \<le> 8 \<Longrightarrow> mem_of h i = m (p + i)"
      by (intro mem_of_holds[OF assms(1)]) simp
    from this[of 1] this[of 2] this[of 3] this[of 4] this[of 5] this[of 6] this[of 7] this[of 8]
      m0 u True
    show ?thesis by (simp add: endpoint_header_at_def numeral_2_eq_2)
  next
    case False
    show ?thesis
    proof (cases "7 \<le> length h")
      case True
      then have "\<And>i. i \<le> 6 \<Longrightarrow> mem_of h i = m (p + i)"
        by (intro mem_of_holds[OF assms(1)]) simp
      from this[of 1] this[of 2] this[of 3] this[of 4] this[of 5] this[of 6] m0 u True False
      show ?thesis by (simp add: endpoint_header_at_def numeral_2_eq_2)
    next
      case f: False
      with False m0 u show ?thesis by (simp add: endpoint_header_at_def numeral_2_eq_2)
    qed
  qed
qed

lemma interface_header_at_holds:
  assumes "holds m p h" and "9 \<le> length h"
  shows "interface_header_at m p = interface_header_at (mem_of h) 0"
proof -
  from assms(2) have "\<And>i. i \<le> 8 \<Longrightarrow> mem_of h i = m (p + i)"
    by (intro mem_of_holds[OF assms(1)]) simp
  from this[of 0] this[of 1] this[of 2] this[of 3] this[of 4] this[of 5] this[of 6] this[of 7]
    this[of 8]
  show ?thesis by (simp add: interface_header_at_def numeral_2_eq_2)
qed

lemma config_header_at_holds:
  assumes "holds m p h" and "9 \<le> length h"
  shows "config_header_at m p c = config_header_at (mem_of h) 0 c"
proof -
  from assms(2) have "\<And>i. i \<le> 8 \<Longrightarrow> mem_of h i = m (p + i)"
    by (intro mem_of_holds[OF assms(1)]) simp
  from this[of 0] this[of 1] this[of 2] this[of 3] this[of 4] this[of 5] this[of 6] this[of 7]
    this[of 8]
  show ?thesis by (simp add: config_header_at_def numeral_2_eq_2)
qed

lemma parse_endpoint_stream:
  assumes wf: "wf_endpoint (h, xs)" and al: "\<forall>j. al j"
    and holds: "holds m p (h @ concat xs @ rest)" and stops: "stops rest"
  shows "\<exists>k'. parse_endpoint K al k zero_endpoint m p
            (int (length h) + int (length (concat xs)) + int (length rest)) =
          (int (length h) + int (length (concat xs)), endpoint_tree (h, xs), k')"
proof -
  define cx where "cx = concat xs"
  from wf have hd: "header_of LIBUSB_DT_ENDPOINT 2 h" and xs: "list_all unknown_descriptor xs"
    by simp_all
  from holds have hh: "holds m p h" and hx: "holds m (p + length h) (concat xs @ rest)"
    by (simp_all add: holds_append)
  note h = header_of_head[OF hd _ hh, simplified]
  from hd have l: "0 < length h" by (auto simp: header_of_def)
  let ?sz = "int (length h) + int (length cx) + int (length rest)"
  have sc: "scan False m (p + unat (m p)) (?sz - uint (m p)) =
      Some (p + length h + length cx, int (length rest))"
    using scan_over_run[OF xs hx stops, of False] h by (simp add: cx_def)
  have hdr: "endpoint_header_at m p zero_endpoint = endpoint_header_at (mem_of h) 0 zero_endpoint"
    using hh h(1) l by (rule endpoint_header_at_holds)
  from hx have "holds m (p + length h) cx" by (simp add: holds_append cx_def)
  then have bx: "bytes m (p + length h) (p + length h + length cx) = cx"
    by (rule holds_bytes)
  have tree: "endpoint_tree (h, xs) = (endpoint_header_at (mem_of h) 0 zero_endpoint)
       \<lparr>libusb_endpoint_descriptor.extra := blob cx,
        libusb_endpoint_descriptor.extra_length := int (length cx)\<rparr>"
    by (simp add: cx_def)
  have "\<exists>k'. parse_endpoint K al k zero_endpoint m p ?sz =
          (int (length h) + int (length cx), endpoint_tree (h, xs), k')"
  proof (cases "cx = []")
    case True
    with sc h hdr show ?thesis
      unfolding tree by (simp add: parse_endpoint_unfold blob_def)
  next
    case False
    with sc h hdr al bx show ?thesis
      unfolding tree by (simp add: parse_endpoint_unfold blob_def)
  qed
  then show ?thesis by (simp add: cx_def)
qed


lemma header_of_length:
  assumes "header_of t least h"
  shows "uint (h ! 0) = int (length h)" and "unat (h ! 0) = length h"
proof -
  from assms have l: "length h \<le> 255" and h: "h ! 0 = word_of_nat (length h)"
    by (simp_all add: header_of_def)
  from l have "unat (word_of_nat (length h) :: u8) = length h"
    by (intro of_nat_inverse) simp_all
  with h show u: "unat (h ! 0) = length h" by simp
  have "uint (h ! 0) = int (unat (h ! 0))" by (rule uint_nat)
  with u show "uint (h ! 0) = int (length h)" by presburger
qed

lemma stops_header:
  assumes "header_of t least h" and "2 \<le> least" and "proper_descriptor t"
  shows "stops (h @ r)"
proof -
  from assms have l: "2 \<le> length h" and t: "h ! 1 = t" by (simp_all add: header_of_def)
  from l have "(h @ r) ! 0 = h ! 0" "(h @ r) ! 1 = h ! 1" by (auto simp: nth_append)
  with header_of_length(1)[OF assms(1)] l t assms(3) show ?thesis
    by (simp add: stops_def)
qed

lemma stops_endpoint: "wf_endpoint e \<Longrightarrow> stops (enc_endpoint e @ r)"
proof (cases e)
  case (Pair h xs)
  assume "wf_endpoint e"
  with Pair have "header_of LIBUSB_DT_ENDPOINT 2 h" by simp
  then have "stops (h @ (concat xs @ r))"
    by (rule stops_header) (simp_all add: proper_descriptor_def)
  with Pair show ?thesis by simp
qed

lemma stops_endpoints:
  "list_all wf_endpoint eps \<Longrightarrow> stops r \<Longrightarrow> stops (concat (map enc_endpoint eps) @ r)"
  by (cases eps) (simp_all add: stops_endpoint)

lemma parse_interface_endpoints_stream:
  assumes "list_all wf_endpoint eps" and al: "\<forall>j. al j"
    and "holds m p (concat (map enc_endpoint eps) @ rest)" and "stops rest"
    and "length done = i" and "n = i + length eps"
  shows "\<exists>k'. parse_interface_endpoints K al m n i (done @ replicate (length eps) zero_endpoint) p
            (int (length (concat (map enc_endpoint eps))) + int (length rest)) parsed k =
          (Inr (p + length (concat (map enc_endpoint eps)), int (length rest),
                parsed + int (length (concat (map enc_endpoint eps)))),
           done @ map endpoint_tree eps, k')"
  using assms
proof (induction eps arbitrary: "done" i p parsed k)
  case Nil
  then show ?case by (subst parse_interface_endpoints.simps) simp
next
  case (Cons e eps)
  obtain h xs where e: "e = (h, xs)" by (cases e)
  define tl where "tl = concat (map enc_endpoint eps)"
  define cx where "cx = concat xs"
  from Cons.prems e have wf: "wf_endpoint (h, xs)" and wfs: "list_all wf_endpoint eps" by simp_all
  from wf have hd: "header_of LIBUSB_DT_ENDPOINT 2 h" by simp
  from Cons.prems(3) e have hall: "holds m p (h @ concat xs @ (tl @ rest))"
    by (simp add: tl_def)
  then have hh: "holds m p h" and
    htl: "holds m (p + (length h + length cx)) (tl @ rest)"
    by (simp_all add: holds_append cx_def add.assoc)
  note hm = header_of_head[OF hd _ hh, simplified]
  have st: "stops (tl @ rest)" unfolding tl_def using wfs Cons.prems(4) by (rule stops_endpoints)
  let ?arr = "done @ replicate (length (e # eps)) zero_endpoint"
  let ?sz = "int (length h) + int (length cx) + int (length (tl @ rest))"
  have slot: "?arr ! i = zero_endpoint" using Cons.prems(5) by (simp add: nth_append)
  from parse_endpoint_stream[OF wf al hall st, of K k]
  obtain k1 where pe: "parse_endpoint K al k zero_endpoint m p ?sz =
      (int (length h) + int (length cx), endpoint_tree (h, xs), k1)"
    by (auto simp: cx_def)
  have upd: "?arr[i := endpoint_tree (h, xs)] =
      (done @ [endpoint_tree (h, xs)]) @ replicate (length eps) zero_endpoint"
    using Cons.prems(5) by (simp add: list_update_append)
  from Cons.IH[OF wfs al htl[unfolded tl_def] Cons.prems(4), of "done @ [endpoint_tree (h, xs)]" "i + 1"
      "parsed + (int (length h) + int (length cx))" k1] Cons.prems(5,6)
  obtain k' where rec: "parse_interface_endpoints K al m n (i + 1)
      ((done @ [endpoint_tree (h, xs)]) @ replicate (length eps) zero_endpoint)
      (p + (length h + length cx)) (int (length tl) + int (length rest))
      (parsed + (int (length h) + int (length cx))) k1 =
     (Inr (p + (length h + length cx) + length tl, int (length rest),
           parsed + (int (length h) + int (length cx)) + int (length tl)),
      (done @ [endpoint_tree (h, xs)]) @ map endpoint_tree eps, k')"
    by (auto simp: tl_def)
  have lt: "i < n" using Cons.prems(6) by simp
  have szeq: "int (length (concat (map enc_endpoint (e # eps)))) + int (length rest) = ?sz"
    by (simp add: e tl_def cx_def)
  have "parse_interface_endpoints K al m n i ?arr p ?sz parsed k =
      (Inr (p + (length h + length cx) + length tl, int (length rest),
           parsed + (int (length h) + int (length cx)) + int (length tl)),
      (done @ [endpoint_tree (h, xs)]) @ map endpoint_tree eps, k')"
    using lt hm slot pe upd rec
    by (subst parse_interface_endpoints.simps)
       (simp add: read_header_eq nat_add_distrib add.assoc)
  then show ?case
    unfolding szeq by (auto simp: e tl_def cx_def add.assoc)
qed


text \<open>What follows an alternate setting in a well-formed stream: the end of the stream, or
  an interface header.\<close>

definition interface_follows :: "u8 list \<Rightarrow> bool" where
  "interface_follows rest =
     (rest = [] \<or>
      (9 \<le> length rest \<and> 2 \<le> uint (rest ! 0) \<and> uint (rest ! 0) \<le> int (length rest) \<and>
       rest ! 1 = LIBUSB_DT_INTERFACE))"

lemma interface_follows_stops: "interface_follows rest \<Longrightarrow> stops rest"
  by (auto simp: interface_follows_def stops_def proper_descriptor_def)

lemma parse_altsetting_endpoints_stream:
  assumes wfs: "list_all wf_endpoint eps" and al: "\<forall>j. al j"
    and holds: "holds m p (concat (map enc_endpoint eps) @ rest)"
    and follows: "interface_follows rest"
    and count: "bNumEndpoints ifp = word_of_nat (length eps)" "length eps \<le> 255"
      "length eps \<le> USB_MAXENDPOINTS K"
  shows "\<exists>k'. parse_altsetting_endpoints K al m ifc num ifp p
            (int (length (concat (map enc_endpoint eps))) + int (length rest)) parsed k =
          Inr (with_altsetting ifc num
                 (ifp\<lparr>endpoint := (if eps = [] then endpoint ifp else Ptr (map endpoint_tree eps))\<rparr>),
               p + length (concat (map enc_endpoint eps)), int (length rest),
               parsed + int (length (concat (map enc_endpoint eps))), k')"
proof -
  define tl where "tl = concat (map enc_endpoint eps)"
  from count have n: "unat (bNumEndpoints ifp) = length eps"
    by (intro of_nat_inverse) simp_all
  have early: "\<not> (int (length tl) + int (length rest) \<ge> 2 \<and>
      (m (p + 1) = LIBUSB_DT_CONFIG \<or> m (p + 1) = LIBUSB_DT_DEVICE))"
  proof (cases eps)
    case Nil
    show ?thesis
    proof (cases "rest = []")
      case True
      with Nil show ?thesis by (simp add: tl_def)
    next
      case False
      with follows have l: "1 < length rest" and t: "rest ! 1 = LIBUSB_DT_INTERFACE"
        by (simp_all add: interface_follows_def)
      from holds Nil have "holds m p rest" by simp
      from holds_nth[OF this l] t show ?thesis
        by (simp add: LIBUSB_DT_INTERFACE_def LIBUSB_DT_CONFIG_def LIBUSB_DT_DEVICE_def)
    qed
  next
    case (Cons e es)
    obtain h xs where e: "e = (h, xs)" by (cases e)
    from wfs Cons e have hd: "header_of LIBUSB_DT_ENDPOINT 2 h" by simp
    from holds Cons e have "holds m p h" by (simp add: holds_append)
    from header_of_head(3)[OF hd _ this] show ?thesis
      by (simp add: LIBUSB_DT_ENDPOINT_def LIBUSB_DT_CONFIG_def LIBUSB_DT_DEVICE_def)
  qed
  show ?thesis
  proof (cases "eps = []")
    case True
    with early n show ?thesis
      by (simp add: parse_altsetting_endpoints_def read_header_eq DESC_HEADER_LENGTH_def tl_def)
  next
    case False
    from parse_interface_endpoints_stream[OF wfs al holds interface_follows_stops[OF follows],
        of "[]" 0 "length eps" K parsed "Suc k"]
    obtain k' where pe: "parse_interface_endpoints K al m (length eps) 0
        (replicate (length eps) zero_endpoint) p (int (length tl) + int (length rest)) parsed (Suc k) =
        (Inr (p + length tl, int (length rest), parsed + int (length tl)),
         map endpoint_tree eps, k')"
      by (auto simp: tl_def)
    from False have pos: "0 < length eps" by simp
    from early n count(3) al pos pe False have
      "parse_altsetting_endpoints K al m ifc num ifp p (int (length tl) + int (length rest)) parsed k =
          Inr (with_altsetting ifc num (ifp\<lparr>endpoint := Ptr (map endpoint_tree eps)\<rparr>),
               p + length tl, int (length rest), parsed + int (length tl), k')"
      by (simp add: parse_altsetting_endpoints_def read_header_eq DESC_HEADER_LENGTH_def)
    with False show ?thesis by (auto simp: tl_def)
  qed
qed


lemma parse_altsetting_stream:
  assumes wf: "wf_altsetting K (h, xs, eps)" and al: "\<forall>j. al j"
    and holds: "holds m p (enc_altsetting (h, xs, eps) @ rest)"
    and follows: "interface_follows rest"
    and ifc: "num_altsetting ifc = int (length (held (altsetting ifc)))"
  shows "\<exists>k'. parse_altsetting K al m ifc p
            (int (length (enc_altsetting (h, xs, eps))) + int (length rest)) parsed k =
          Inr (ifc\<lparr>altsetting := Ptr (held (altsetting ifc) @ [altsetting_tree (h, xs, eps)]),
                   num_altsetting := int (length (held (altsetting ifc))) + 1\<rparr>,
               p + length (enc_altsetting (h, xs, eps)), int (length rest),
               parsed + int (length (enc_altsetting (h, xs, eps))), k')"
proof -
  define cx where "cx = concat xs"
  define tl where "tl = concat (map enc_endpoint eps)"
  define sz where "sz = int (length h) + int (length cx) + (int (length tl) + int (length rest))"
  from wf have hd: "header_of LIBUSB_DT_INTERFACE 9 h" and xs: "list_all unknown_descriptor xs"
    and wfs: "list_all wf_endpoint eps" and cnt: "h ! 4 = word_of_nat (length eps)"
      "length eps \<le> 255" "length eps \<le> USB_MAXENDPOINTS K"
    by simp_all
  from hd have l9: "9 \<le> length h" by (simp add: header_of_def)
  from holds have hh: "holds m p h"
    and hx: "holds m (p + length h) (cx @ (tl @ rest))"
    and hcx: "holds m (p + length h) cx"
    and htl: "holds m (p + length h + length cx) (tl @ rest)"
    by (simp_all add: holds_append cx_def tl_def add.assoc)
  note hm = header_of_head[OF hd _ hh, simplified]
  have st: "stops (tl @ rest)"
    unfolding tl_def using wfs interface_follows_stops[OF follows] by (rule stops_endpoints)
  have sc: "scan False m (p + unat (m p)) (sz - uint (m p)) =
      Some (p + length h + length cx, int (length tl) + int (length rest))"
    using scan_over_run[OF xs hx[unfolded cx_def] st, of False] hm
    by (simp add: cx_def sz_def)
  have hdr: "interface_header_at m p = interface_header_at (mem_of h) 0"
    using hh l9 by (rule interface_header_at_holds)
  from l9 have "4 < length h" by simp
  with cnt have n4: "mem_of h 4 = word_of_nat (length eps)"
    by (simp add: mem_of_def)
  from hcx have bx: "bytes m (p + length h) (p + length h + length cx) = cx"
    by (rule holds_bytes)
  have num: "nat (num_altsetting ifc) = length (held (altsetting ifc))" using ifc by simp
  have wa: "with_altsetting ifc (length (held (altsetting ifc))) d =
      ifc\<lparr>altsetting := Ptr (held (altsetting ifc) @ [d]), num_altsetting := int (length (held (altsetting ifc))) + 1\<rparr>"
    for d
    by (simp add: with_altsetting_def)
  have tree: "altsetting_tree (h, xs, eps) = (interface_header_at (mem_of h) 0)
       \<lparr>endpoint := (if eps = [] then Null else Ptr (map endpoint_tree eps)),
        libusb_interface_descriptor.extra := blob cx,
        libusb_interface_descriptor.extra_length := int (length cx)\<rparr>"
    by (simp add: cx_def)
  have pe: "\<exists>k'. parse_altsetting_endpoints K al m ifc (length (held (altsetting ifc))) ifp
            (p + length h + length cx) (int (length tl) + int (length rest)) q kk =
          Inr (with_altsetting ifc (length (held (altsetting ifc)))
                 (ifp\<lparr>endpoint := (if eps = [] then endpoint ifp else Ptr (map endpoint_tree eps))\<rparr>),
               p + length h + length cx + length tl, int (length rest),
               q + int (length tl), k')"
    if "bNumEndpoints ifp = word_of_nat (length eps)" for ifp q kk
    using parse_altsetting_endpoints_stream[OF wfs al htl[unfolded tl_def] follows that cnt(2,3)]
    by (simp add: tl_def)
  have "\<exists>k'. parse_altsetting K al m ifc p sz parsed k =
          Inr (ifc\<lparr>altsetting := Ptr (held (altsetting ifc) @ [altsetting_tree (h, xs, eps)]),
                   num_altsetting := int (length (held (altsetting ifc))) + 1\<rparr>,
               p + length h + length cx + length tl, int (length rest),
               parsed + (int (length h) + int (length cx) + int (length tl)), k')"
  proof (cases "cx = []")
    case True
    have b: "bNumEndpoints (interface_header_at (mem_of h) 0) = word_of_nat (length eps)"
      using n4 by simp
    from pe[OF b, of "parsed + (sz - (int (length tl) + int (length rest)))" "Suc k"]
    obtain k' where "parse_altsetting_endpoints K al m ifc (length (held (altsetting ifc)))
        (interface_header_at (mem_of h) 0) (p + length h + length cx)
        (int (length tl) + int (length rest))
        (parsed + (sz - (int (length tl) + int (length rest)))) (Suc k) =
      Inr (with_altsetting ifc (length (held (altsetting ifc)))
             ((interface_header_at (mem_of h) 0)
                \<lparr>endpoint := (if eps = [] then endpoint (interface_header_at (mem_of h) 0)
                               else Ptr (map endpoint_tree eps))\<rparr>),
           p + length h + length cx + length tl, int (length rest),
           parsed + (sz - (int (length tl) + int (length rest))) + int (length tl), k')"
      by blast
    with True al sc hm hdr num show ?thesis
      unfolding tree wa
      by (simp add: parse_altsetting_unfold blob_def sz_def)
  next
    case False
    let ?ifp = "(interface_header_at (mem_of h) 0)
        \<lparr>libusb_interface_descriptor.extra := Ptr cx,
         libusb_interface_descriptor.extra_length := int (length cx)\<rparr>"
    have b: "bNumEndpoints ?ifp = word_of_nat (length eps)"
      using n4 by simp
    from pe[OF b, of "parsed + (sz - (int (length tl) + int (length rest)))" "Suc (Suc k)"]
    obtain k' where "parse_altsetting_endpoints K al m ifc (length (held (altsetting ifc)))
        ?ifp (p + length h + length cx)
        (int (length tl) + int (length rest))
        (parsed + (sz - (int (length tl) + int (length rest)))) (Suc (Suc k)) =
      Inr (with_altsetting ifc (length (held (altsetting ifc)))
             (?ifp\<lparr>endpoint := (if eps = [] then endpoint ?ifp
                               else Ptr (map endpoint_tree eps))\<rparr>),
           p + length h + length cx + length tl, int (length rest),
           parsed + (sz - (int (length tl) + int (length rest))) + int (length tl), k')"
      by blast
    with False al sc hm hdr num bx show ?thesis
      unfolding tree wa
      by (simp add: parse_altsetting_unfold blob_def sz_def)
  qed
  then show ?thesis
    by (simp add: sz_def cx_def tl_def add.assoc)
qed


text \<open>What follows an interface in a well-formed stream: the end of the stream, or the header
  of the first setting (numbered 0) of the next interface.\<close>

definition new_interface_follows :: "u8 list \<Rightarrow> bool" where
  "new_interface_follows rest = (interface_follows rest \<and> (rest \<noteq> [] \<longrightarrow> rest ! 3 = 0))"

lemma interface_follows_altsetting:
  assumes "wf_altsetting K a"
  shows "interface_follows (enc_altsetting a @ r)"
proof -
  obtain h xs eps where a: "a = (h, xs, eps)" by (cases a)
  with assms have hd: "header_of LIBUSB_DT_INTERFACE 9 h" by simp
  then have l: "9 \<le> length h" and t: "h ! 1 = LIBUSB_DT_INTERFACE" by (simp_all add: header_of_def)
  from l have "(h @ concat xs @ concat (map enc_endpoint eps) @ r) ! 0 = h ! 0"
    "(h @ concat xs @ concat (map enc_endpoint eps) @ r) ! 1 = h ! 1"
    by (auto simp: nth_append)
  with header_of_length(1)[OF hd] l t a show ?thesis
    by (simp add: interface_follows_def)
qed

lemma altsetting_number_at:
  assumes "wf_altsetting K a" and "holds m p (enc_altsetting a @ r)"
  shows "m (p + 1) = LIBUSB_DT_INTERFACE" and "m (p + 3) = fst a ! 3"
    and "9 \<le> length (enc_altsetting a)"
proof -
  obtain h xs eps where a: "a = (h, xs, eps)" by (cases a)
  with assms have hd: "header_of LIBUSB_DT_INTERFACE 9 h" by simp
  then have l: "9 \<le> length h" by (simp add: header_of_def)
  from assms(2) a have hh: "holds m p h" by (simp add: holds_append)
  from header_of_head(3)[OF hd _ hh] show "m (p + 1) = LIBUSB_DT_INTERFACE" by simp
  from l have "3 < length h" by simp
  from holds_nth[OF hh this] a show "m (p + 3) = fst a ! 3" by simp
  from l a show "9 \<le> length (enc_altsetting a)" by simp
qed

lemma parse_interface_loop_stream:
  assumes "list_all (wf_altsetting K) alts" and "alts \<noteq> []"
    and "list_all (\<lambda>a. fst a ! 3 \<noteq> 0) (tl alts)" and al: "\<forall>j. al j"
    and "holds m p (enc_interface alts @ rest)" and "new_interface_follows rest"
    and "num_altsetting ifc = int (length (held (altsetting ifc)))"
  shows "\<exists>k'. parse_interface_loop K al m ifc p
            (int (length (enc_interface alts)) + int (length rest)) parsed k =
          (parsed + int (length (enc_interface alts)),
           ifc\<lparr>altsetting := Ptr (held (altsetting ifc) @ map altsetting_tree alts),
               num_altsetting := int (length (held (altsetting ifc))) + int (length alts)\<rparr>, k')"
  using assms
proof (induction alts arbitrary: ifc p parsed k)
  case Nil
  then show ?case by simp
next
  case (Cons a as)
  obtain h xs eps where a: "a = (h, xs, eps)" by (cases a)
  define ea where "ea = enc_altsetting a"
  define tl where "tl = enc_interface as"
  from Cons.prems have wfa: "wf_altsetting K a" and wfas: "list_all (wf_altsetting K) as"
    and nz: "list_all (\<lambda>a. fst a ! 3 \<noteq> 0) as"
    by simp_all
  from Cons.prems(5) have hall: "holds m p (ea @ (tl @ rest))"
    and htl: "holds m (p + length ea) (tl @ rest)"
    by (simp_all add: enc_interface_def holds_append ea_def tl_def)
  from Cons.prems(6) have fr: "interface_follows rest" and fz: "rest \<noteq> [] \<longrightarrow> rest ! 3 = 0"
    by (simp_all add: new_interface_follows_def)
  have ftl: "interface_follows (tl @ rest)"
  proof (cases as)
    case Nil
    with fr show ?thesis by (simp add: tl_def enc_interface_def)
  next
    case (Cons b bs)
    with wfas have "wf_altsetting K b" by simp
    from interface_follows_altsetting[OF this, of "enc_interface bs @ rest"] Cons
    show ?thesis by (simp add: tl_def enc_interface_def)
  qed
  let ?sz = "int (length ea) + (int (length tl) + int (length rest))"
  let ?ifc1 = "ifc\<lparr>altsetting := Ptr (held (altsetting ifc) @ [altsetting_tree a]),
                    num_altsetting := int (length (held (altsetting ifc))) + 1\<rparr>"
  from parse_altsetting_stream[OF wfa[unfolded a] al hall[unfolded ea_def a] ftl Cons.prems(7),
      of parsed k]
  obtain k1 where pa: "parse_altsetting K al m ifc p ?sz parsed k =
      Inr (?ifc1, p + length ea, int (length tl) + int (length rest),
           parsed + int (length ea), k1)"
    by (auto simp: ea_def a)
  from altsetting_number_at(3)[OF wfa hall[unfolded ea_def]] have l9: "9 \<le> length ea"
    by (simp add: ea_def)
  then have big: "INTERFACE_DESC_LENGTH \<le> ?sz" by (simp add: INTERFACE_DESC_LENGTH_def)
  have "\<exists>k'. parse_interface_loop K al m ifc p ?sz parsed k =
          (parsed + (int (length ea) + int (length tl)),
           ifc\<lparr>altsetting := Ptr (held (altsetting ifc) @ altsetting_tree a # map altsetting_tree as),
               num_altsetting := int (length (held (altsetting ifc))) + (1 + int (length as))\<rparr>, k')"
  proof (cases as)
    case Nil
    then have tln: "tl = []" by (simp add: tl_def enc_interface_def)
    have stop: "int (length rest) < LIBUSB_DT_INTERFACE_SIZE \<or>
        m (p + length ea + 1) \<noteq> LIBUSB_DT_INTERFACE \<or> m (p + length ea + 3) = 0"
    proof (cases "rest = []")
      case True
      then show ?thesis by (simp add: LIBUSB_DT_INTERFACE_SIZE_def)
    next
      case False
      with fr fz have "3 < length rest" "rest ! 3 = 0" by (simp_all add: interface_follows_def)
      with holds_nth[OF htl[unfolded tln, simplified], of 3] show ?thesis by simp
    qed
    with pa big tln Nil show ?thesis
      by (subst parse_interface_loop.simps) auto
  next
    case (Cons b bs)
    with wfas nz have wfb: "wf_altsetting K b" and nzb: "fst b ! 3 \<noteq> 0" by simp_all
    from htl Cons have hb: "holds m (p + length ea) (enc_altsetting b @ (enc_interface bs @ rest))"
      by (simp add: tl_def enc_interface_def)
    note nb = altsetting_number_at[OF wfb hb]
    from nb(3) Cons have "9 \<le> length tl" by (simp add: tl_def enc_interface_def)
    with nb nzb have go: "\<not> (int (length tl) + int (length rest) < LIBUSB_DT_INTERFACE_SIZE \<or>
        m (p + length ea + 1) \<noteq> LIBUSB_DT_INTERFACE \<or> m (p + length ea + 3) = 0)"
      by (simp add: LIBUSB_DT_INTERFACE_SIZE_def)
    have ne: "as \<noteq> []" using Cons by simp
    have nz': "list_all (\<lambda>a. fst a ! 3 \<noteq> 0) (List.tl as)" using nz Cons by simp
    have inv: "num_altsetting ?ifc1 = int (length (held (altsetting ?ifc1)))" by simp
    from Cons.IH[OF wfas ne nz' al htl[unfolded tl_def] Cons.prems(6) inv,
        of "parsed + int (length ea)" k1]
    obtain k' where "parse_interface_loop K al m ?ifc1 (p + length ea)
        (int (length tl) + int (length rest)) (parsed + int (length ea)) k1 =
      (parsed + int (length ea) + int (length tl),
       ?ifc1\<lparr>altsetting := Ptr (held (altsetting ?ifc1) @ map altsetting_tree as),
             num_altsetting := int (length (held (altsetting ?ifc1))) + int (length as)\<rparr>, k')"
      by (auto simp: tl_def)
    with pa big go show ?thesis
      by (subst parse_interface_loop.simps) (auto simp: add.assoc)
  qed
  then show ?case
    by (simp add: enc_interface_def ea_def tl_def add.assoc)
qed

lemma parse_interface_stream:
  assumes "wf_interface K alts" and al: "\<forall>j. al j"
    and "holds m p (enc_interface alts @ rest)" and "new_interface_follows rest"
  shows "\<exists>k'. parse_interface K al k zero_interface m p
            (int (length (enc_interface alts)) + int (length rest)) =
          (int (length (enc_interface alts)), interface_tree alts, k')"
proof -
  from assms(1) have "list_all (wf_altsetting K) alts" "alts \<noteq> []"
    "list_all (\<lambda>a. fst a ! 3 \<noteq> 0) (tl alts)"
    by (simp_all add: wf_interface_def)
  from parse_interface_loop_stream[OF this al assms(3,4), of "zero_interface\<lparr>num_altsetting := 0\<rparr>" 0 k]
  show ?thesis
    by (simp add: parse_interface_def zero_interface_def interface_tree_def)
qed


lemma new_interface_follows_interface:
  assumes "wf_interface K f"
  shows "new_interface_follows (enc_interface f @ r)"
proof -
  from assms obtain a as where f: "f = a # as" and wfa: "wf_altsetting K a" and z: "fst a ! 3 = 0"
    by (cases f) (auto simp: wf_interface_def)
  obtain h xs eps where a: "a = (h, xs, eps)" by (cases a)
  with wfa have "9 \<le> length h" by (simp add: header_of_def)
  then have "(enc_interface f @ r) ! 3 = h ! 3"
    by (simp add: f a enc_interface_def nth_append)
  with z a interface_follows_altsetting[OF wfa, of "enc_interface as @ r"] f show ?thesis
    by (simp add: new_interface_follows_def enc_interface_def)
qed

lemma new_interface_follows_interfaces:
  "list_all (wf_interface K) fs \<Longrightarrow> new_interface_follows r \<Longrightarrow>
     new_interface_follows (concat (map enc_interface fs) @ r)"
  by (cases fs) (auto simp: new_interface_follows_interface)

lemma parse_configuration_interfaces_stream:
  assumes "list_all (wf_interface K) ifs" and "list_all unknown_descriptor xs"
    and "ifs = [] \<longrightarrow> xs = []" and al: "\<forall>j. al j"
    and "holds m p (concat xs @ concat (map enc_interface ifs) @ rest)"
    and "new_interface_follows rest"
    and "length pre = i" and "n = i + length ifs"
    and "interface config = Ptr (pre @ replicate (length ifs) zero_interface)"
  shows "\<exists>k'. parse_configuration_interfaces K al m n i config
            (pre @ replicate (length ifs) zero_interface) p
            (int (length (concat xs)) + int (length (concat (map enc_interface ifs))) +
             int (length rest)) k =
          (int (length rest),
           (if concat xs \<noteq> [] \<and> libusb_config_descriptor.extra_length config = 0
            then config\<lparr>libusb_config_descriptor.extra := Ptr (concat xs),
                        libusb_config_descriptor.extra_length := int (length (concat xs))\<rparr>
            else config)\<lparr>interface := Ptr (pre @ map interface_tree ifs)\<rparr>, k')"
  using assms
proof (induction ifs arbitrary: xs pre i p config k)
  case Nil
  then show ?case by (simp add: parse_configuration_interfaces_unfold)
next
  case (Cons f fs)
  define cx where "cx = concat xs"
  define ef where "ef = enc_interface f"
  define tl where "tl = concat (map enc_interface fs)"
  from Cons.prems have wff: "wf_interface K f" and wffs: "list_all (wf_interface K) fs" by simp_all
  from Cons.prems(5) have hall: "holds m p (concat xs @ (ef @ tl @ rest))"
    and hf: "holds m (p + length cx) (ef @ (tl @ rest))"
    and hcx: "holds m p cx"
    and htl: "holds m (p + length cx + length ef) (concat [] @ tl @ rest)"
    by (simp_all add: holds_append cx_def ef_def tl_def add.assoc)
  have nf: "new_interface_follows (ef @ tl @ rest)"
    unfolding ef_def using wff by (rule new_interface_follows_interface)
  then have st: "stops (ef @ tl @ rest)"
    by (simp add: new_interface_follows_def interface_follows_stops)
  have nft: "new_interface_follows (tl @ rest)"
    unfolding tl_def using wffs Cons.prems(6) by (rule new_interface_follows_interfaces)
  let ?arr = "pre @ replicate (length (f # fs)) zero_interface"
  let ?sz = "int (length cx) + (int (length ef) + int (length tl) + int (length rest))"
  have sc: "scan True m p ?sz = Some (p + length cx, int (length ef) + int (length tl) + int (length rest))"
    using scan_over_run[OF Cons.prems(2) hall st, of True] by (simp add: cx_def add.assoc)
  from hcx have bx: "bytes m p (p + length cx) = cx" by (rule holds_bytes)
  have lt: "i < n" using Cons.prems(8) by simp
  have slot: "?arr ! i = zero_interface" using Cons.prems(7) by (simp add: nth_append)
  have upd: "?arr[i := interface_tree f] =
      (pre @ [interface_tree f]) @ replicate (length fs) zero_interface"
    using Cons.prems(7) by (simp add: list_update_append)
  have at: "\<exists>k'. parse_configuration_interface_at K al m n i c ?arr (p + length cx)
              (int (length ef) + int (length tl) + int (length rest)) kk =
            (int (length rest), c\<lparr>interface := Ptr (pre @ map interface_tree (f # fs))\<rparr>, k')"
    for c kk
  proof -
    from parse_interface_stream[OF wff al hf[unfolded ef_def] nft, of kk]
    obtain k2 where pi: "parse_interface K al kk zero_interface m (p + length cx)
        (int (length ef) + int (length tl) + int (length rest)) =
        (int (length ef), interface_tree f, k2)"
      by (auto simp: ef_def add.assoc)
    let ?c1 = "c\<lparr>interface := Ptr ((pre @ [interface_tree f]) @ replicate (length fs) zero_interface)\<rparr>"
    have "interface ?c1 = Ptr ((pre @ [interface_tree f]) @ replicate (length fs) zero_interface)"
      by simp
    from Cons.IH[where xs="[]" and pre="pre @ [interface_tree f]" and i="i + 1"
        and p="p + length cx + length ef" and config="?c1" and k=k2,
        OF wffs _ _ al htl[unfolded tl_def] Cons.prems(6)]
      Cons.prems(7,8) this
    obtain k' where "parse_configuration_interfaces K al m n (i + 1) ?c1
        ((pre @ [interface_tree f]) @ replicate (length fs) zero_interface)
        (p + length cx + length ef) (int (length tl) + int (length rest)) k2 =
        (int (length rest), ?c1\<lparr>interface := Ptr ((pre @ [interface_tree f]) @ map interface_tree fs)\<rparr>, k')"
      by (auto simp: tl_def)
    with pi slot upd show ?thesis
      by (simp add: parse_configuration_interface_at_def add.assoc)
  qed
  have "\<exists>k'. parse_configuration_interfaces K al m n i config ?arr p ?sz k =
          (int (length rest),
           (if cx \<noteq> [] \<and> libusb_config_descriptor.extra_length config = 0
            then config\<lparr>libusb_config_descriptor.extra := Ptr cx,
                        libusb_config_descriptor.extra_length := int (length cx)\<rparr>
            else config)\<lparr>interface := Ptr (pre @ map interface_tree (f # fs))\<rparr>, k')"
  proof (cases "cx \<noteq> [] \<and> libusb_config_descriptor.extra_length config = 0")
    case True
    from at[of "config\<lparr>libusb_config_descriptor.extra := Ptr cx,
                        libusb_config_descriptor.extra_length := int (length cx)\<rparr>" "Suc k"]
      True lt sc al bx show ?thesis
      by (simp add: parse_configuration_interfaces_unfold)
  next
    case False
    from at[of config k] False lt sc show ?thesis
      by (auto simp: parse_configuration_interfaces_unfold)
  qed
  note main = this
  have szeq: "int (length (concat xs)) + int (length (concat (map enc_interface (f # fs)))) +
      int (length rest) = ?sz"
    by (simp add: cx_def ef_def tl_def)
  show ?case
    using main unfolding szeq cx_def .
qed


lemma declares_total_uint:
  assumes "declares_total h n"
  shows "uint (le16 (h ! 2) (h ! 3)) = int n"
proof -
  from assms have "n < 2 ^ LENGTH(16)" and "word_of_nat n = le16 (h ! 2) (h ! 3)"
    by (simp_all add: declares_total_def)
  then have "unat (le16 (h ! 2) (h ! 3)) = n"
    by (intro of_nat_inverse) simp_all
  then show ?thesis
    by (simp only: uint_nat)
qed

lemma parse_configuration_stream:
  assumes wf: "wf_config K (h, xs, ifs)" and al: "\<forall>j. al j"
    and tot: "declares_total h (length (enc_config (h, xs, ifs)) + length rest)"
    and holds: "holds m p (enc_config (h, xs, ifs) @ rest)"
    and nf: "new_interface_follows rest"
  shows "\<exists>k'. parse_configuration K al k c m p =
           (int (length rest), config_tree c (h, xs, ifs), k')"
proof -
  define cx where "cx = concat xs"
  define ei where "ei = concat (map enc_interface ifs)"
  from wf have hd: "header_of LIBUSB_DT_CONFIG 9 h" and ne: "ifs \<noteq> []"
    and n: "h ! 4 = word_of_nat (length ifs)" "length ifs \<le> 255"
    and lim: "length ifs \<le> USB_MAXINTERFACES K"
    and wxs: "list_all unknown_descriptor xs" and wfs: "list_all (wf_interface K) ifs"
    by simp_all
  from hd have l9: "9 \<le> length h" by (simp add: header_of_def)
  from holds have hh: "holds m p h"
    and hrest: "holds m (p + length h) (concat xs @ concat (map enc_interface ifs) @ rest)"
    by (simp_all add: holds_append)
  from header_of_head[OF hd _ hh] have b: "unat (m p) = length h" "uint (m p) = int (length h)"
    by simp_all
  from l9 have "2 < length h" "3 < length h" "4 < length h" by simp_all
  from this[THEN holds_nth[OF hh]]
  have m2: "m (p + 2) = h ! 2" and m3: "m (p + 3) = h ! 3" and m4: "m (p + 4) = h ! 4"
    by simp_all
  from n have "unat (h ! 4) = length ifs"
    by (intro of_nat_inverse) simp_all
  with m4 have ni: "unat (m (p + 4)) = length ifs" by simp
  from declares_total_uint[OF tot] m2 m3
  have t: "uint (le16 (m (p + 2)) (m (p + 3))) - uint (m p) =
      int (length (concat xs)) + int (length (concat (map enc_interface ifs))) + int (length rest)"
    by (simp add: b)
  let ?c2 = "(config_header_at m p c)
             \<lparr>interface := Ptr (replicate (length ifs) zero_interface),
              libusb_config_descriptor.extra := Null,
              libusb_config_descriptor.extra_length := 0\<rparr>"
  have sync: "interface ?c2 = Ptr ([] @ replicate (length ifs) zero_interface)" by simp
  from parse_configuration_interfaces_stream[where pre="[]" and i=0 and n="length ifs"
      and k="Suc k" and K=K, OF wfs wxs _ al hrest nf _ _ sync] ne
  obtain k' where loop: "parse_configuration_interfaces K al m (length ifs) 0 ?c2
      (replicate (length ifs) zero_interface) (p + length h)
      (int (length (concat xs)) + int (length (concat (map enc_interface ifs))) + int (length rest))
      (Suc k) =
      (int (length rest),
       (if concat xs \<noteq> [] \<and> libusb_config_descriptor.extra_length ?c2 = 0
            then ?c2\<lparr>libusb_config_descriptor.extra := Ptr (concat xs),
                        libusb_config_descriptor.extra_length := int (length (concat xs))\<rparr>
            else ?c2)\<lparr>interface := Ptr ([] @ map interface_tree ifs)\<rparr>, k')"
    by auto
  have "(if bs \<noteq> [] \<and> libusb_config_descriptor.extra_length ?c2 = 0
            then ?c2\<lparr>libusb_config_descriptor.extra := Ptr bs,
                        libusb_config_descriptor.extra_length := int (length bs)\<rparr>
            else ?c2)\<lparr>interface := Ptr ([] @ map interface_tree ifs)\<rparr> =
        (config_header_at (mem_of h) 0 c)
          \<lparr>interface := Ptr (map interface_tree ifs),
           libusb_config_descriptor.extra := blob bs,
           libusb_config_descriptor.extra_length := int (length bs)\<rparr>" for bs
    by (cases "bs = []") (simp_all add: config_header_at_holds[OF hh l9] blob_def)
  then have tree: "(if concat xs \<noteq> [] \<and> libusb_config_descriptor.extra_length ?c2 = 0
            then ?c2\<lparr>libusb_config_descriptor.extra := Ptr (concat xs),
                        libusb_config_descriptor.extra_length := int (length (concat xs))\<rparr>
            else ?c2)\<lparr>interface := Ptr ([] @ map interface_tree ifs)\<rparr> =
        config_tree c (h, xs, ifs)"
    unfolding config_tree.simps .
  from lim al have "parse_configuration K al k c m p =
      parse_configuration_interfaces K al m (length ifs) 0 ?c2
      (replicate (length ifs) zero_interface) (p + length h)
      (int (length (concat xs)) + int (length (concat (map enc_interface ifs))) + int (length rest))
      (Suc k)"
    unfolding parse_configuration_unfold ni t b(1) by simp
  with loop show ?thesis unfolding tree by simp
qed

subsection \<open>The alternate settings of an interface\<close>

lemma parse_altsetting_endpoints_slot:
  assumes "parse_altsetting_endpoints K al m ifc num ifp buffer sz parsed k = Inr (ifc1, st)"
  shows "\<exists>d. ifc1 = with_altsetting ifc num d"
  using assms
  by (auto simp: parse_altsetting_endpoints_def Let_def split: if_splits prod.splits sum.splits)

lemma parse_altsetting_slot:
  assumes "parse_altsetting K al m ifc buffer sz parsed k = Inr (ifc1, st)"
  shows "\<exists>d. ifc1 = with_altsetting ifc (nat (num_altsetting ifc)) d"
  using assms unfolding parse_altsetting_def
  by (auto split: sum.splits prod.splits dest: parse_altsetting_endpoints_slot)

text \<open>
  Claim C4. A pass of the loop of \<^verbatim>\<open>parse_interface\<close> that reaches line 302 has stored its
  alternate setting in the slot after the \<^verbatim>\<open>num_altsetting\<close> settings that the entry had, and
  has counted it. The loop then goes on with that same entry exactly when at least 9 bytes
  remain, the next descriptor has the type \<^verbatim>\<open>LIBUSB_DT_INTERFACE\<close> and its
  \<^verbatim>\<open>bAlternateSetting\<close> is not 0; otherwise the call returns the bytes parsed and the entry
  (lines 301-307). So the settings of a well-formed interface, a first one numbered 0 and any
  number of others numbered otherwise, are decoded into one entry, in stream order, and the
  call consumes exactly their bytes; and a well-formed configuration gives one entry for each
  of its interfaces, each with all its settings in stream order. The interface number is not
  looked at.
\<close>

theorem alternate_settings_accumulate:
  "(INTERFACE_DESC_LENGTH \<le> sz \<and>
    parse_altsetting K al m ifc buffer sz parsed k = Inr (ifc1, b, s, p, k1) \<longrightarrow>
      num_altsetting ifc1 = int (nat (num_altsetting ifc)) + 1 \<and>
      butlast (held (altsetting ifc1)) = take (nat (num_altsetting ifc)) (held (altsetting ifc)) \<and>
      parse_interface_loop K al m ifc buffer sz parsed k =
        (if LIBUSB_DT_INTERFACE_SIZE \<le> s \<and> m (b + 1) = LIBUSB_DT_INTERFACE \<and> m (b + 3) \<noteq> 0
         then parse_interface_loop K al m ifc1 b s p k1
         else (p, ifc1, k1))) \<and>
   (wf_interface K alts \<and> (\<forall>j. al' j) \<and> holds m' q (enc_interface alts @ rest) \<and>
    new_interface_follows rest \<longrightarrow>
      fst (parse_interface K al' k' zero_interface m' q
             (int (length (enc_interface alts)) + int (length rest))) =
        int (length (enc_interface alts)) \<and>
      fst (snd (parse_interface K al' k' zero_interface m' q
             (int (length (enc_interface alts)) + int (length rest)))) =
        \<lparr>altsetting = Ptr (map altsetting_tree alts), num_altsetting = int (length alts)\<rparr>) \<and>
   (wf_config K (h, xs, ifs) \<and> (\<forall>j. al'' j) \<and>
    declares_total h (length (enc_config (h, xs, ifs)) + length rest') \<and>
    holds m'' q' (enc_config (h, xs, ifs) @ rest') \<and> new_interface_follows rest' \<longrightarrow>
      interface (fst (snd (parse_configuration K al'' k'' config m'' q'))) =
        Ptr (map (\<lambda>alts. \<lparr>altsetting = Ptr (map altsetting_tree alts),
                            num_altsetting = int (length alts)\<rparr>) ifs))"
proof (intro conjI impI)
  assume a: "INTERFACE_DESC_LENGTH \<le> sz \<and>
    parse_altsetting K al m ifc buffer sz parsed k = Inr (ifc1, b, s, p, k1)"
  from parse_altsetting_slot[of K al m ifc buffer sz parsed k ifc1 "(b, s, p, k1)"] a
  obtain d where d: "ifc1 = with_altsetting ifc (nat (num_altsetting ifc)) d" by auto
  then show "num_altsetting ifc1 = int (nat (num_altsetting ifc)) + 1"
    by (simp add: with_altsetting_def)
  from d show "butlast (held (altsetting ifc1)) =
      take (nat (num_altsetting ifc)) (held (altsetting ifc))"
    by (simp add: with_altsetting_def)
  from a show "parse_interface_loop K al m ifc buffer sz parsed k =
      (if LIBUSB_DT_INTERFACE_SIZE \<le> s \<and> m (b + 1) = LIBUSB_DT_INTERFACE \<and> m (b + 3) \<noteq> 0
       then parse_interface_loop K al m ifc1 b s p k1
       else (p, ifc1, k1))"
    by (subst parse_interface_loop.simps) auto
next
  assume a: "wf_interface K alts \<and> (\<forall>j. al' j) \<and> holds m' q (enc_interface alts @ rest) \<and>
    new_interface_follows rest"
  then have wf: "wf_interface K alts" and al: "\<forall>j. al' j"
    and hs: "holds m' q (enc_interface alts @ rest)" and nf: "new_interface_follows rest"
    by blast+
  from parse_interface_stream[OF wf al hs nf, of k']
  obtain k2 where r: "parse_interface K al' k' zero_interface m' q
      (int (length (enc_interface alts)) + int (length rest)) =
      (int (length (enc_interface alts)), interface_tree alts, k2)"
    by blast
  show "fst (parse_interface K al' k' zero_interface m' q
             (int (length (enc_interface alts)) + int (length rest))) =
        int (length (enc_interface alts))"
    unfolding r by simp
  show "fst (snd (parse_interface K al' k' zero_interface m' q
             (int (length (enc_interface alts)) + int (length rest)))) =
        \<lparr>altsetting = Ptr (map altsetting_tree alts), num_altsetting = int (length alts)\<rparr>"
    unfolding r by (simp add: interface_tree_def)
next
  assume a: "wf_config K (h, xs, ifs) \<and> (\<forall>j. al'' j) \<and>
    declares_total h (length (enc_config (h, xs, ifs)) + length rest') \<and>
    holds m'' q' (enc_config (h, xs, ifs) @ rest') \<and> new_interface_follows rest'"
  then have wf: "wf_config K (h, xs, ifs)" and al: "\<forall>j. al'' j"
    and tot: "declares_total h (length (enc_config (h, xs, ifs)) + length rest')"
    and hs: "holds m'' q' (enc_config (h, xs, ifs) @ rest')" and nf: "new_interface_follows rest'"
    by blast+
  from parse_configuration_stream[OF wf al tot hs nf, of k'' config]
  obtain k2 where r: "parse_configuration K al'' k'' config m'' q' =
      (int (length rest'), config_tree config (h, xs, ifs), k2)"
    by blast
  have "interface_tree = (\<lambda>alts. \<lparr>altsetting = Ptr (map altsetting_tree alts),
                            num_altsetting = int (length alts)\<rparr>)"
    by (rule ext) (simp add: interface_tree_def)
  then show "interface (fst (snd (parse_configuration K al'' k'' config m'' q'))) =
        Ptr (map (\<lambda>alts. \<lparr>altsetting = Ptr (map altsetting_tree alts),
                            num_altsetting = int (length alts)\<rparr>) ifs)"
    unfolding r by simp
qed

text \<open>A configuration with one interface that has two alternate settings, numbered 0 and 1.\<close>

definition setting_0 :: altsetting_stream where
  "setting_0 = ([9, 4, 0, 0, 0, 0xFF, 0, 0, 0], [], [])"

definition setting_1 :: altsetting_stream where
  "setting_1 = ([9, 4, 0, 1, 0, 0xFF, 0, 0, 0], [], [])"

definition two_settings_config :: config_stream where
  "two_settings_config = ([9, 2, 27, 0, 1, 1, 0, 0x80, 0x32], [], [[setting_0, setting_1]])"

theorem alternate_settings_accumulate_witness:
  "enc_config two_settings_config =
     [9, 2, 27, 0, 1, 1, 0, 0x80, 0x32, 9, 4, 0, 0, 0, 0xFF, 0, 0, 0, 9, 4, 0, 1, 0, 0xFF, 0, 0, 0] \<and>
   parse_altsetting libusb_1_0 (\<lambda>_. True) (mem_of (enc_config two_settings_config))
       zero_interface 9 18 0 1 =
     Inr (\<lparr>altsetting = Ptr [altsetting_tree setting_0], num_altsetting = 1\<rparr>, 18, 9, 9, 2) \<and>
   parse_interface_loop libusb_1_0 (\<lambda>_. True) (mem_of (enc_config two_settings_config))
       zero_interface 9 18 0 1 =
     parse_interface_loop libusb_1_0 (\<lambda>_. True) (mem_of (enc_config two_settings_config))
       \<lparr>altsetting = Ptr [altsetting_tree setting_0], num_altsetting = 1\<rparr> 18 9 9 2 \<and>
   parse_interface libusb_1_0 (\<lambda>_. True) 1 zero_interface
       (mem_of (enc_config two_settings_config)) 9 18 =
     (18, \<lparr>altsetting = Ptr [altsetting_tree setting_0, altsetting_tree setting_1],
           num_altsetting = 2\<rparr>, 3) \<and>
   map bAlternateSetting [altsetting_tree setting_0, altsetting_tree setting_1] = [0, 1] \<and>
   interface (fst (snd (parse_configuration libusb_1_0 (\<lambda>_. True) 0 zero_config
       (mem_of (enc_config two_settings_config)) 0))) =
     Ptr [\<lparr>altsetting = Ptr [altsetting_tree setting_0, altsetting_tree setting_1],
           num_altsetting = 2\<rparr>]"
proof -
  let ?bs = "enc_config two_settings_config"
  let ?m = "mem_of ?bs"
  let ?ifc1 = "\<lparr>altsetting = Ptr [altsetting_tree setting_0], num_altsetting = 1\<rparr>"
  have e: "?bs = [9, 2, 27, 0, 1, 1, 0, 0x80, 0x32, 9, 4, 0, 0, 0, 0xFF, 0, 0, 0,
      9, 4, 0, 1, 0, 0xFF, 0, 0, 0]"
    by code_simp
  have h1: "INTERFACE_DESC_LENGTH \<le> 18" by (simp add: INTERFACE_DESC_LENGTH_def)
  have pa: "parse_altsetting libusb_1_0 (\<lambda>_. True) ?m zero_interface 9 18 0 1 =
      Inr (?ifc1, 18, 9, 9, 2)"
    by code_simp
  have go: "LIBUSB_DT_INTERFACE_SIZE \<le> 9 \<and> ?m (18 + 1) = LIBUSB_DT_INTERFACE \<and> ?m (18 + 3) \<noteq> 0"
    by code_simp
  have wfi: "wf_interface libusb_1_0 [setting_0, setting_1]" by code_simp
  have wfc: "wf_config libusb_1_0 ([9, 2, 27, 0, 1, 1, 0, 0x80, 0x32], [], [[setting_0, setting_1]])"
    by code_simp
  have al: "\<forall>j. (\<lambda>_. True) j" by simp
  have hi: "holds ?m 9 (enc_interface [setting_0, setting_1] @ [])" by code_simp
  have hc: "holds ?m 0
      (enc_config ([9, 2, 27, 0, 1, 1, 0, 0x80, 0x32], [], [[setting_0, setting_1]]) @ [])"
    by code_simp
  have tot: "declares_total [9, 2, 27, 0, 1, 1, 0, 0x80, 0x32]
      (length (enc_config ([9, 2, 27, 0, 1, 1, 0, 0x80, 0x32], [], [[setting_0, setting_1]])) +
       length ([] :: u8 list))"
    by (simp add: declares_total_def le16_def enc_interface_def setting_0_def setting_1_def)
  have nf: "new_interface_follows []"
    by (simp add: new_interface_follows_def interface_follows_def)
  have li: "int (length (enc_interface [setting_0, setting_1])) + int (length ([] :: u8 list)) = 18"
    by code_simp
  have k: "snd (snd (parse_interface libusb_1_0 (\<lambda>_. True) 1 zero_interface ?m 9 18)) = 3"
    by code_simp
  have n: "map bAlternateSetting [altsetting_tree setting_0, altsetting_tree setting_1] = [0, 1]"
    by code_simp
  note t = alternate_settings_accumulate[where K=libusb_1_0 and al="\<lambda>_. True" and m="?m"
      and ifc=zero_interface and buffer=9 and sz=18 and parsed=0 and k=1 and ?ifc1.0="?ifc1"
      and b=18 and s=9 and p=9 and ?k1.0=2 and alts="[setting_0, setting_1]"
      and al'="\<lambda>_. True" and m'="?m" and q=9 and rest="[]" and k'=1
      and h="[9, 2, 27, 0, 1, 1, 0, 0x80, 0x32]" and xs="[]" and ifs="[[setting_0, setting_1]]"
      and al''="\<lambda>_. True" and rest'="[]" and m''="?m" and q'=0 and k''=0 and config=zero_config]
  note t1 = t[THEN conjunct1] and t2 = t[THEN conjunct2, THEN conjunct1]
    and t3 = t[THEN conjunct2, THEN conjunct2]
  from t1 h1 pa go have c1: "parse_interface_loop libusb_1_0 (\<lambda>_. True) ?m zero_interface 9 18 0 1 =
      parse_interface_loop libusb_1_0 (\<lambda>_. True) ?m ?ifc1 18 9 9 2"
    by simp
  from t2 wfi al hi nf have "fst (parse_interface libusb_1_0 (\<lambda>_. True) 1 zero_interface ?m 9
        (int (length (enc_interface [setting_0, setting_1])) + int (length ([] :: u8 list)))) =
      int (length (enc_interface [setting_0, setting_1])) \<and>
    fst (snd (parse_interface libusb_1_0 (\<lambda>_. True) 1 zero_interface ?m 9
        (int (length (enc_interface [setting_0, setting_1])) + int (length ([] :: u8 list))))) =
      \<lparr>altsetting = Ptr (map altsetting_tree [setting_0, setting_1]),
        num_altsetting = int (length [setting_0, setting_1])\<rparr>"
    by blast
  then have "fst (parse_interface libusb_1_0 (\<lambda>_. True) 1 zero_interface ?m 9 18) = 18 \<and>
    fst (snd (parse_interface libusb_1_0 (\<lambda>_. True) 1 zero_interface ?m 9 18)) =
      \<lparr>altsetting = Ptr [altsetting_tree setting_0, altsetting_tree setting_1],
        num_altsetting = 2\<rparr>"
    unfolding li using li by simp
  with k have c2: "parse_interface libusb_1_0 (\<lambda>_. True) 1 zero_interface ?m 9 18 =
      (18, \<lparr>altsetting = Ptr [altsetting_tree setting_0, altsetting_tree setting_1],
            num_altsetting = 2\<rparr>, 3)"
    by (cases "parse_interface libusb_1_0 (\<lambda>_. True) 1 zero_interface ?m 9 18") simp
  from t3 wfc al hc tot nf have c3: "interface (fst (snd (parse_configuration libusb_1_0
        (\<lambda>_. True) 0 zero_config ?m 0))) =
      Ptr [\<lparr>altsetting = Ptr [altsetting_tree setting_0, altsetting_tree setting_1],
            num_altsetting = 2\<rparr>]"
    unfolding two_settings_config_def by simp
  from e pa c1 c2 n c3 show ?thesis by blast
qed

end
